theory Spec2Isabelle
  imports Main "HOL-Library.Word" "HOL-Library.Multiset"
begin

section \<open>The two-tier residency cache (package cache)\<close>

text \<open>
  The Go package keeps, per tier, a map from chat id to a \<^verbatim>\<open>*cacheEntry\<close> and a
  \<^verbatim>\<open>container/list\<close> of chat ids (front = most recently used). The model keeps
  \<^item> each Go map as a partial function; \<^verbatim>\<open>len(m)\<close> is \<open>card (dom m)\<close>;
  \<^item> each \<^verbatim>\<open>list.List\<close> as a HOL list whose head is \<^verbatim>\<open>Front()\<close> and whose last
    element is \<^verbatim>\<open>Back()\<close>;
  \<^item> a \<^verbatim>\<open>*ChatSession\<close> as an index into \<open>heap\<close>, the list of session objects
    allocated so far, so that the sharing of one session object between the cache and
    its callers is kept;
  \<^item> a \<^verbatim>\<open>cacheEntry\<close> as its session pointer: its \<^verbatim>\<open>element\<close> field is the list cell
    that holds the entry's own chat id, so \<^verbatim>\<open>Remove(entry.element)\<close> removes that cell
    (\<open>remove1\<close>) and \<^verbatim>\<open>MoveToFront(entry.element)\<close> moves it to the head;
  \<^item> the statistics as 64-bit words (\<^verbatim>\<open>int64\<close>, \<^verbatim>\<open>++\<close> wraps);
  \<^item> \<^verbatim>\<open>time.Now()\<close> as a clock argument \<open>clk\<close>: \<open>clk 0\<close> is the reading stored in
    \<^verbatim>\<open>LastAccessed\<close> by \<^verbatim>\<open>GetOrCreate\<close>, \<open>clk 1\<close> the one stored in \<^verbatim>\<open>CreatedAt\<close> on
    a miss, \<open>clk 2\<close> the one \<^verbatim>\<open>AddMessage\<close> stores after its append;
  \<^item> \<^verbatim>\<open>MessageCount\<close> as an unbounded integer: it is bumped once per appended
    message, and a slice cannot hold enough messages to wrap a 64-bit \<^verbatim>\<open>int\<close>;
  \<^item> a loop that need not terminate as a \<^theory_text>\<open>partial_function\<close> into \<open>option\<close>:
    \<open>None\<close> is "never returns";
  \<^item> the nil dereference \<^verbatim>\<open>entry.session\<close> in \<^verbatim>\<open>demoteFromL1\<close> as the value
    \<open>Inl NilDereference\<close>.
\<close>

datatype CacheLevel = LevelUnknown | LevelL1 | LevelL2 | LevelMiss

type_synonym time = int

record Message =
  Content :: string
  SenderID :: string
  Timestamp :: time

record ChatSession =
  ChatID :: string
  Messages :: "Message list"
  LastAccessed :: time
  CreatedAt :: time
  MessageCount :: int

record CacheStats =
  TotalRequests :: "64 word"
  CacheHits :: "64 word"
  CacheMisses :: "64 word"
  L1Hits :: "64 word"
  L2Hits :: "64 word"
  Evictions :: "64 word"
  Demotions :: "64 word"

record HierarchicalCache =
  l1Cache :: "string \<rightharpoonup> nat"
  l1List :: "string list"
  l1Capacity :: int
  l2Cache :: "string \<rightharpoonup> nat"
  l2List :: "string list"
  l2Capacity :: int
  stats :: CacheStats
  serverID :: string
  heap :: "ChatSession list"

datatype panic = NilDereference | MakesliceCapOutOfRange

definition zeroStats :: CacheStats where
  "zeroStats = \<lparr>TotalRequests = 0, CacheHits = 0, CacheMisses = 0, L1Hits = 0,
     L2Hits = 0, Evictions = 0, Demotions = 0\<rparr>"

text \<open>\<^verbatim>\<open>NewHierarchicalCache\<close>: no check of either capacity, and no error result.\<close>

definition NewHierarchicalCache :: "string \<Rightarrow> int \<Rightarrow> int \<Rightarrow> HierarchicalCache" where
  "NewHierarchicalCache sid cap1 cap2 =
     \<lparr>l1Cache = Map.empty, l1List = [], l1Capacity = cap1,
      l2Cache = Map.empty, l2List = [], l2Capacity = cap2,
      stats = zeroStats, serverID = sid, heap = []\<rparr>"

text \<open>Writing through a session pointer.\<close>

definition heap_upd :: "nat \<Rightarrow> (ChatSession \<Rightarrow> ChatSession) \<Rightarrow> ChatSession list \<Rightarrow> ChatSession list" where
  "heap_upd p f h = (if p < length h then h[p := f (h ! p)] else h)"

text \<open>\<^verbatim>\<open>evictFromL2\<close>: nothing happens on an empty list.\<close>

definition evictFromL2 :: "HierarchicalCache \<Rightarrow> HierarchicalCache" where
  "evictFromL2 c =
     (case l2List c of
        [] \<Rightarrow> c
      | _ # _ \<Rightarrow>
          let chatID = last (l2List c) in
          c\<lparr>l2List := butlast (l2List c),
            l2Cache := (l2Cache c)(chatID := None),
            stats := (stats c)\<lparr>Evictions := Evictions (stats c) + 1\<rparr>\<rparr>)"

text \<open>The loop \<^verbatim>\<open>for len(c.l2Cache) >= c.l2Capacity { c.evictFromL2() }\<close> of \<^verbatim>\<open>addToL2\<close>.\<close>

partial_function (option) addToL2_loop :: "HierarchicalCache \<Rightarrow> HierarchicalCache option" where
  "addToL2_loop c =
     (if l2Capacity c \<le> int (card (dom (l2Cache c)))
      then addToL2_loop (evictFromL2 c) else Some c)"

definition addToL2 :: "HierarchicalCache \<Rightarrow> string \<Rightarrow> nat \<Rightarrow> HierarchicalCache option" where
  "addToL2 c chatID session =
     (case addToL2_loop c of
        None \<Rightarrow> None
      | Some c' \<Rightarrow>
          Some (c'\<lparr>l2List := chatID # l2List c',
                   l2Cache := (l2Cache c')(chatID \<mapsto> session)\<rparr>))"

text \<open>
  \<^verbatim>\<open>demoteFromL1\<close>: returns at once on an empty list; otherwise the back entry leaves
  L1, the counter is bumped, and \<^verbatim>\<open>entry.session\<close> is read for the call of
  \<^verbatim>\<open>addToL2\<close> (a nil \<^verbatim>\<open>entry\<close> panics there).
\<close>

definition demoteFromL1 :: "HierarchicalCache \<Rightarrow> (panic + HierarchicalCache) option" where
  "demoteFromL1 c =
     (case l1List c of
        [] \<Rightarrow> Some (Inr c)
      | _ # _ \<Rightarrow>
          let chatID = last (l1List c);
              entry = l1Cache c chatID;
              c1 = c\<lparr>l1List := butlast (l1List c),
                     l1Cache := (l1Cache c)(chatID := None),
                     stats := (stats c)\<lparr>Demotions := Demotions (stats c) + 1\<rparr>\<rparr>
          in (case entry of
                None \<Rightarrow> Some (Inl NilDereference)
              | Some session \<Rightarrow>
                  (case addToL2 c1 chatID session of
                     None \<Rightarrow> None
                   | Some c2 \<Rightarrow> Some (Inr c2))))"

text \<open>The loop \<^verbatim>\<open>for len(c.l1Cache) >= c.l1Capacity { c.demoteFromL1() }\<close> of \<^verbatim>\<open>addToL1\<close>.\<close>

partial_function (option) addToL1_loop :: "HierarchicalCache \<Rightarrow> (panic + HierarchicalCache) option" where
  "addToL1_loop c =
     (if l1Capacity c \<le> int (card (dom (l1Cache c)))
      then (case demoteFromL1 c of
              None \<Rightarrow> None
            | Some (Inl e) \<Rightarrow> Some (Inl e)
            | Some (Inr c') \<Rightarrow> addToL1_loop c')
      else Some (Inr c))"

definition addToL1 :: "HierarchicalCache \<Rightarrow> string \<Rightarrow> nat \<Rightarrow> (panic + HierarchicalCache) option" where
  "addToL1 c chatID session =
     (case addToL1_loop c of
        None \<Rightarrow> None
      | Some (Inl e) \<Rightarrow> Some (Inl e)
      | Some (Inr c') \<Rightarrow>
          Some (Inr (c'\<lparr>l1List := chatID # l1List c',
                        l1Cache := (l1Cache c')(chatID \<mapsto> session)\<rparr>)))"

definition promoteToL1 :: "HierarchicalCache \<Rightarrow> string \<Rightarrow> nat \<Rightarrow> (panic + HierarchicalCache) option" where
  "promoteToL1 c chatID session =
     addToL1 (c\<lparr>l2List := remove1 chatID (l2List c),
                l2Cache := (l2Cache c)(chatID := None)\<rparr>) chatID session"

definition newSession :: "string \<Rightarrow> (nat \<Rightarrow> time) \<Rightarrow> ChatSession" where
  "newSession chatID clk =
     \<lparr>ChatID = chatID, Messages = [], LastAccessed = clk 0, CreatedAt = clk 1,
      MessageCount = 0\<rparr>"

text \<open>
  \<^verbatim>\<open>GetOrCreate\<close> returns the cache after the call, the session pointer and the
  level the session was found at.
\<close>

definition GetOrCreate ::
  "HierarchicalCache \<Rightarrow> string \<Rightarrow> (nat \<Rightarrow> time) \<Rightarrow> (panic + HierarchicalCache \<times> nat \<times> CacheLevel) option" where
  "GetOrCreate c0 chatID clk =
     (let c = c0\<lparr>stats := (stats c0)\<lparr>TotalRequests := TotalRequests (stats c0) + 1\<rparr>\<rparr> in
      case l1Cache c chatID of
        Some session \<Rightarrow>
          Some (Inr (c\<lparr>stats := (stats c)\<lparr>CacheHits := CacheHits (stats c) + 1,
                                           L1Hits := L1Hits (stats c) + 1\<rparr>,
                       heap := heap_upd session (\<lambda>s. s\<lparr>LastAccessed := clk 0\<rparr>) (heap c),
                       l1List := chatID # remove1 chatID (l1List c)\<rparr>,
                     session, LevelL1))
      | None \<Rightarrow>
          (case l2Cache c chatID of
             Some session \<Rightarrow>
               (case promoteToL1
                       (c\<lparr>stats := (stats c)\<lparr>CacheHits := CacheHits (stats c) + 1,
                                               L2Hits := L2Hits (stats c) + 1\<rparr>,
                          heap := heap_upd session (\<lambda>s. s\<lparr>LastAccessed := clk 0\<rparr>) (heap c)\<rparr>)
                       chatID session of
                  None \<Rightarrow> None
                | Some (Inl e) \<Rightarrow> Some (Inl e)
                | Some (Inr c') \<Rightarrow> Some (Inr (c', session, LevelL2)))
           | None \<Rightarrow>
               (let session = length (heap c) in
                case addToL1
                       (c\<lparr>stats := (stats c)\<lparr>CacheMisses := CacheMisses (stats c) + 1\<rparr>,
                          heap := heap c @ [newSession chatID clk]\<rparr>)
                       chatID session of
                  None \<Rightarrow> None
                | Some (Inl e) \<Rightarrow> Some (Inl e)
                | Some (Inr c') \<Rightarrow> Some (Inr (c', session, LevelMiss)))))"

text \<open>
  \<^verbatim>\<open>AddMessage\<close>: one call of \<^verbatim>\<open>GetOrCreate\<close>, then the append through the
  returned pointer. The \<^verbatim>\<open>error\<close> result of the Go function is always nil and is
  left out.
\<close>

definition AddMessage ::
  "HierarchicalCache \<Rightarrow> string \<Rightarrow> Message \<Rightarrow> (nat \<Rightarrow> time) \<Rightarrow> (panic + HierarchicalCache \<times> nat \<times> CacheLevel) option" where
  "AddMessage c chatID msg clk =
     (case GetOrCreate c chatID clk of
        None \<Rightarrow> None
      | Some (Inl e) \<Rightarrow> Some (Inl e)
      | Some (Inr (c', session, level)) \<Rightarrow>
          Some (Inr (c'\<lparr>heap := heap_upd session
                                 (\<lambda>s. s\<lparr>Messages := Messages s @ [msg],
                                        MessageCount := MessageCount s + 1,
                                        LastAccessed := clk 2\<rparr>) (heap c')\<rparr>,
                     session, level)))"

definition GetSession :: "HierarchicalCache \<Rightarrow> string \<Rightarrow> nat option \<times> CacheLevel \<times> bool" where
  "GetSession c chatID =
     (case l1Cache c chatID of
        Some session \<Rightarrow> (Some session, LevelL1, True)
      | None \<Rightarrow>
          (case l2Cache c chatID of
             Some session \<Rightarrow> (Some session, LevelL2, True)
           | None \<Rightarrow> (None, LevelMiss, False)))"

definition Clear :: "HierarchicalCache \<Rightarrow> HierarchicalCache" where
  "Clear c = c\<lparr>l1Cache := Map.empty, l1List := [], l2Cache := Map.empty, l2List := []\<rparr>"

record CacheInfo =
  L1Size :: nat
  L1Capacity :: int
  L2Size :: nat
  L2Capacity :: int
  L1Chats :: "string list"
  L2Chats :: "string list"
  Stats :: CacheStats

text \<open>
  \<^verbatim>\<open>GetCacheInfo\<close> fills both id lists with \<^verbatim>\<open>for chatID := range c.l1Cache\<close>, a
  loop over the map, not over the LRU list. Go leaves the order of a map range
  unspecified, so the order in which the runtime yields the keys is an argument:
  \<open>ks1\<close> for the range over \<open>l1Cache\<close>, \<open>ks2\<close> for the range over \<open>l2Cache\<close>.
  \<open>map_range m ks\<close> says that \<open>ks\<close> is such an order: every key of \<open>m\<close> once.
\<close>

definition map_range :: "(string \<rightharpoonup> nat) \<Rightarrow> string list \<Rightarrow> bool" where
  "map_range m ks = (distinct ks \<and> set ks = dom m)"

definition GetCacheInfo :: "HierarchicalCache \<Rightarrow> string list \<Rightarrow> string list \<Rightarrow> CacheInfo" where
  "GetCacheInfo c ks1 ks2 =
     \<lparr>L1Size = card (dom (l1Cache c)), L1Capacity = l1Capacity c,
      L2Size = card (dom (l2Cache c)), L2Capacity = l2Capacity c,
      L1Chats = foldl (\<lambda>l1Chats chatID. l1Chats @ [chatID]) [] ks1,
      L2Chats = foldl (\<lambda>l2Chats chatID. l2Chats @ [chatID]) [] ks2,
      Stats = stats c\<rparr>"

text \<open>Sequences of public operations, starting from any cache.\<close>

datatype cache_op =
    OpGetOrCreate string "nat \<Rightarrow> time"
  | OpAddMessage string Message "nat \<Rightarrow> time"
  | OpGetSession string
  | OpClear

fun apply_op :: "HierarchicalCache \<Rightarrow> cache_op \<Rightarrow> (panic + HierarchicalCache) option" where
  "apply_op c (OpGetOrCreate chatID clk) =
     (case GetOrCreate c chatID clk of
        None \<Rightarrow> None
      | Some (Inl e) \<Rightarrow> Some (Inl e)
      | Some (Inr (c', _, _)) \<Rightarrow> Some (Inr c'))"
| "apply_op c (OpAddMessage chatID msg clk) =
     (case AddMessage c chatID msg clk of
        None \<Rightarrow> None
      | Some (Inl e) \<Rightarrow> Some (Inl e)
      | Some (Inr (c', _, _)) \<Rightarrow> Some (Inr c'))"
| "apply_op c (OpGetSession chatID) = Some (Inr c)"
| "apply_op c OpClear = Some (Inr (Clear c))"

fun run_ops :: "HierarchicalCache \<Rightarrow> cache_op list \<Rightarrow> (panic + HierarchicalCache) option" where
  "run_ops c [] = Some (Inr c)"
| "run_ops c (op # ops) =
     (case apply_op c op of
        None \<Rightarrow> None
      | Some (Inl e) \<Rightarrow> Some (Inl e)
      | Some (Inr c') \<Rightarrow> run_ops c' ops)"

section \<open>The consistent hash ring (package ring)\<close>

text \<open>
  Two library functions and one constant of the Go runtime are not part of the
  repository and are arguments of the model:
  \<^item> \<open>H\<close> is \<^verbatim>\<open>hashKey\<close>, that is \<^verbatim>\<open>crc32.ChecksumIEEE\<close> on the bytes of the key;
  \<^item> \<open>srt\<close> is what \<^verbatim>\<open>sort.Slice\<close> with the comparison \<^verbatim>\<open>nodes[i].Hash < nodes[j].Hash\<close>
    does to the slice. The library promises a sorted permutation and no stability;
    \<open>sort_slice_spec\<close> says that much;
  \<^item> \<open>maxAlloc\<close> is the runtime's \<^verbatim>\<open>maxAlloc\<close>, the largest number of bytes one
    allocation may ask for (\<open>2 ^ 48\<close> on linux/amd64).
  \<^verbatim>\<open>sort.Search\<close> is modelled by its binary search. \<^verbatim>\<open>int\<close> and \<^verbatim>\<open>uintptr\<close> are those
  of a 64-bit platform.
\<close>

record VirtualNode =
  Hash :: "32 word"
  NodeID :: string
  VNodeIdx :: int

record HashRing =
  nodes :: "VirtualNode list"
  nodeCapacity :: "string \<rightharpoonup> int"
  nodeAddress :: "string \<rightharpoonup> string"
  replicas :: int

record NodeInfo =
  NodeID_info :: string
  Address :: string


definition NewHashRing :: "int \<Rightarrow> HashRing" where
  "NewHashRing r =
     \<lparr>nodes = [], nodeCapacity = Map.empty, nodeAddress = Map.empty,
      replicas = (if r < 1 then 100 else r)\<rparr>"

text \<open>\<^verbatim>\<open>fmt.Sprintf("%s#%d", nodeID, vNodeIdx)\<close>.\<close>

fun decimal :: "nat \<Rightarrow> string" where
  "decimal n =
     (if n < 10 then [''0123456789'' ! n]
      else decimal (n div 10) @ [''0123456789'' ! (n mod 10)])"

definition virtualNodeKey :: "string \<Rightarrow> int \<Rightarrow> string" where
  "virtualNodeKey nodeID vNodeIdx =
     nodeID @ ''#'' @ (if vNodeIdx < 0 then ''-'' @ decimal (nat (- vNodeIdx))
                       else decimal (nat vNodeIdx))"

definition AddNode ::
  "(string \<Rightarrow> 32 word) \<Rightarrow> (VirtualNode list \<Rightarrow> VirtualNode list) \<Rightarrow>
   HashRing \<Rightarrow> string \<Rightarrow> int \<Rightarrow> string \<Rightarrow> HashRing" where
  "AddNode H srt hr nodeID capacity address =
     (if nodeCapacity hr nodeID \<noteq> None then hr
      else
        let capacity' = (if capacity < 1 then replicas hr else capacity);
            vNodes = map (\<lambda>i. \<lparr>Hash = H (virtualNodeKey nodeID (int i)),
                                NodeID = nodeID, VNodeIdx = int i\<rparr>)
                         [0..<nat capacity']
        in hr\<lparr>nodeCapacity := (nodeCapacity hr)(nodeID \<mapsto> capacity'),
              nodeAddress := (nodeAddress hr)(nodeID \<mapsto> address),
              nodes := srt (nodes hr @ vNodes)\<rparr>)"

definition RemoveNode :: "HashRing \<Rightarrow> string \<Rightarrow> HashRing" where
  "RemoveNode hr nodeID =
     (if nodeCapacity hr nodeID = None then hr
      else hr\<lparr>nodes := filter (\<lambda>vNode. NodeID vNode \<noteq> nodeID) (nodes hr),
              nodeCapacity := (nodeCapacity hr)(nodeID := None),
              nodeAddress := (nodeAddress hr)(nodeID := None)\<rparr>)"

text \<open>
  \<^verbatim>\<open>sort.Search(n, f)\<close>: the loop \<^verbatim>\<open>for i < j { h := (i+j)/2; if !f(h) { i = h+1 } else { j = h } }\<close>
  started at \<open>i = 0\<close>, \<open>j = n\<close>.
\<close>

function Search_loop :: "nat \<Rightarrow> nat \<Rightarrow> (nat \<Rightarrow> bool) \<Rightarrow> nat" where
  "Search_loop i j f =
     (if i < j then
        (let h = (i + j) div 2 in
         if \<not> f h then Search_loop (h + 1) j f else Search_loop i h f)
      else i)"
  by pat_completeness auto
termination
  by (relation "measure (\<lambda>(i, j, f). j - i)") auto

definition Search :: "nat \<Rightarrow> (nat \<Rightarrow> bool) \<Rightarrow> nat" where
  "Search n f = Search_loop 0 n f"

text \<open>The landing index shared by \<^verbatim>\<open>GetNode\<close> and \<^verbatim>\<open>GetNodes\<close>, wrapped to 0.\<close>

definition startIndex :: "(string \<Rightarrow> 32 word) \<Rightarrow> HashRing \<Rightarrow> string \<Rightarrow> nat" where
  "startIndex H hr key =
     (let hash = H key;
          idx = Search (length (nodes hr)) (\<lambda>i. hash \<le> Hash (nodes hr ! i))
      in if length (nodes hr) \<le> idx then 0 else idx)"

text \<open>A missing key of \<^verbatim>\<open>hr.nodeAddress\<close> reads as the empty string.\<close>

definition addressOf :: "HashRing \<Rightarrow> string \<Rightarrow> string" where
  "addressOf hr nodeID = (case nodeAddress hr nodeID of None \<Rightarrow> [] | Some a \<Rightarrow> a)"


text \<open>
  The loop of \<^verbatim>\<open>GetNodes\<close>:
  \<^verbatim>\<open>for i := 0; i < len(hr.nodes) && len(result) < count; i++\<close>, with the map
  \<^verbatim>\<open>seen\<close> as a function that is false where the Go map has no key.
\<close>

function GetNodes_loop ::
  "HashRing \<Rightarrow> nat \<Rightarrow> int \<Rightarrow> nat \<Rightarrow> (string \<Rightarrow> bool) \<Rightarrow> NodeInfo list \<Rightarrow> NodeInfo list" where
  "GetNodes_loop hr startIdx cnt i seen result =
     (if i < length (nodes hr) \<and> int (length result) < cnt then
        (let idx = (startIdx + i) mod length (nodes hr);
             nodeID = NodeID (nodes hr ! idx)
         in if \<not> seen nodeID
            then GetNodes_loop hr startIdx cnt (i + 1) (seen(nodeID := True))
                   (result @ [\<lparr>NodeID_info = nodeID, Address = addressOf hr nodeID\<rparr>])
            else GetNodes_loop hr startIdx cnt (i + 1) seen result)
      else result)"
  by pat_completeness auto
termination
  by (relation "measure (\<lambda>(hr, startIdx, cnt, i, seen, result). length (nodes hr) - i)") auto

declare GetNodes_loop.simps [simp del]

text \<open>
  The check of the runtime's \<^verbatim>\<open>makeslice\<close> for \<^verbatim>\<open>make([]NodeInfo, 0, cap)\<close>: it
  multiplies the element size by \<^verbatim>\<open>uintptr(cap)\<close> and panics with
  "makeslice: cap out of range" when the product overflows a \<^verbatim>\<open>uintptr\<close> (as it does
  for every negative \<^verbatim>\<open>cap\<close>) or exceeds \<^verbatim>\<open>maxAlloc\<close>. A \<^verbatim>\<open>NodeInfo\<close> is two string
  headers, 32 bytes. \<open>makeslice_cap_ok maxAlloc cap\<close> says that the check passes.
\<close>

definition NodeInfo_size :: int where
  "NodeInfo_size = 32"

definition makeslice_cap_ok :: "int \<Rightarrow> int \<Rightarrow> bool" where
  "makeslice_cap_ok maxAlloc cap =
     (0 \<le> cap \<and> NodeInfo_size * cap < 2 ^ 64 \<and> NodeInfo_size * cap \<le> maxAlloc)"

text \<open>
  \<^verbatim>\<open>GetNodes\<close>: nil (the empty list) on an empty ring; otherwise
  \<^verbatim>\<open>make([]NodeInfo, 0, count)\<close> runs before the loop and panics when \<^verbatim>\<open>count\<close> (here
  \<open>cnt\<close>) fails the check of \<^verbatim>\<open>makeslice\<close>. Running out of memory for a capacity
  that passes the check is left to the runtime.
\<close>

definition GetNodes ::
  "(string \<Rightarrow> 32 word) \<Rightarrow> int \<Rightarrow> HashRing \<Rightarrow> string \<Rightarrow> int \<Rightarrow> panic + NodeInfo list" where
  "GetNodes H maxAlloc hr key cnt =
     (if length (nodes hr) = 0 then Inr []
      else if \<not> makeslice_cap_ok maxAlloc cnt then Inl MakesliceCapOutOfRange
      else Inr (GetNodes_loop hr (startIndex H hr key) cnt 0 (\<lambda>_. False) []))"


definition GetNodeAddress :: "HashRing \<Rightarrow> string \<Rightarrow> string \<times> bool" where
  "GetNodeAddress hr nodeID =
     (case nodeAddress hr nodeID of None \<Rightarrow> ([], False) | Some a \<Rightarrow> (a, True))"




section \<open>The routing client (package client)\<close>

text \<open>
  Modelled from the spec: the request and response messages of the backend RPC
  (\<^verbatim>\<open>pb.ChatRequest\<close>, \<^verbatim>\<open>pb.ChatResponse\<close>), whose generated Go declarations are not
  among the sources; the fields are those of the spec's \<^verbatim>\<open>PostMessage\<close>, under the
  names the client and the server use for them.

  The network is an argument of the model:
  \<^item> \<open>dial address\<close> tells whether \<^verbatim>\<open>grpc.DialContext\<close> to \<open>address\<close> succeeds;
  \<^item> \<open>post address req\<close> is what \<^verbatim>\<open>conn.client.PostMessage(ctx, req)\<close> returns on the
    connection to \<open>address\<close>: \<open>Inl\<close> a transport-level error, \<open>Inr\<close> a response.
  Within one \<^verbatim>\<open>SendMessage\<close> either is consulted at most once per address, since a
  failed attempt marks the connection down and a later attempt at the same address
  stops at the health check.
  A \<^verbatim>\<open>*serverConnection\<close> is reached only through \<^verbatim>\<open>c.connections[address]\<close>, so a
  write through the pointer is an update of the map at \<open>address\<close>. The fields
  \<^verbatim>\<open>conn\<close> and \<^verbatim>\<open>client\<close> are kept as "is not nil".
\<close>

record ChatRequest =
  ChatId :: string
  MessageText :: string
  SenderId :: string
  Timestamp_req :: int

record ChatResponse =
  Success :: bool
  ServerId :: string
  CacheLocation :: CacheLevel
  MessageCount_resp :: "32 word"
  ErrorMessage :: string

record serverConnection =
  address :: string
  conn :: bool
  client :: bool
  healthy :: bool

record ClientConfig =
  VirtualNodes :: int
  MaxRetries :: int
  ConnectTimeout :: int
  RequestTimeout :: int

record ClientStats =
  TotalRequests_client :: "64 word"
  SuccessRequests :: "64 word"
  FailedRequests :: "64 word"
  FailoverCount :: "64 word"
  PrimaryHits :: "64 word"

record SmartClient =
  ring :: HashRing
  connections :: "string \<rightharpoonup> serverConnection"
  config :: ClientConfig
  stats_client :: ClientStats

datatype rpc_error =
    NoConnectionTo string
  | MarkedAsDown string
  | FailedToConnect string
  | TransportError string

datatype send_error = NoServersAvailable | AllServersExhausted "rpc_error option"

definition DefaultClientConfig :: ClientConfig where
  "DefaultClientConfig =
     \<lparr>VirtualNodes = 100, MaxRetries = 3, ConnectTimeout = 5 * 1000000000,
      RequestTimeout = 10 * 1000000000\<rparr>"

definition NewSmartClient :: "ClientConfig \<Rightarrow> SmartClient" where
  "NewSmartClient cfg0 =
     (let cfg1 = (if VirtualNodes cfg0 \<le> 0 then cfg0\<lparr>VirtualNodes := 100\<rparr> else cfg0);
          cfg2 = (if MaxRetries cfg1 \<le> 0 then cfg1\<lparr>MaxRetries := 3\<rparr> else cfg1);
          cfg3 = (if ConnectTimeout cfg2 \<le> 0 then cfg2\<lparr>ConnectTimeout := 5 * 1000000000\<rparr> else cfg2);
          cfg4 = (if RequestTimeout cfg3 \<le> 0 then cfg3\<lparr>RequestTimeout := 10 * 1000000000\<rparr> else cfg3)
      in \<lparr>ring = NewHashRing (VirtualNodes cfg4), connections = Map.empty, config = cfg4,
          stats_client = \<lparr>TotalRequests_client = 0, SuccessRequests = 0, FailedRequests = 0,
                          FailoverCount = 0, PrimaryHits = 0\<rparr>\<rparr>)"

definition connectToServer :: "(string \<Rightarrow> bool) \<Rightarrow> string \<Rightarrow> rpc_error + unit" where
  "connectToServer dial addr = (if dial addr then Inr () else Inl (FailedToConnect addr))"

definition AddServer ::
  "(string \<Rightarrow> 32 word) \<Rightarrow> (VirtualNode list \<Rightarrow> VirtualNode list) \<Rightarrow> (string \<Rightarrow> bool) \<Rightarrow>
   SmartClient \<Rightarrow> string \<Rightarrow> string \<Rightarrow> int \<Rightarrow> SmartClient" where
  "AddServer H srt dial c sid addr capacity =
     (let c1 = c\<lparr>ring := AddNode H srt (ring c) sid capacity addr\<rparr> in
      case connectToServer dial addr of
        Inl err \<Rightarrow>
          c1\<lparr>connections := (connections c1)(addr \<mapsto>
                \<lparr>address = addr, conn = False, client = False, healthy = False\<rparr>)\<rparr>
      | Inr _ \<Rightarrow>
          c1\<lparr>connections := (connections c1)(addr \<mapsto>
                \<lparr>address = addr, conn = True, client = True, healthy = True\<rparr>)\<rparr>)"

definition markConnectionUnhealthy :: "SmartClient \<Rightarrow> string \<Rightarrow> SmartClient" where
  "markConnectionUnhealthy c addr =
     (case connections c addr of
        None \<Rightarrow> c
      | Some sc \<Rightarrow> c\<lparr>connections := (connections c)(addr \<mapsto> sc\<lparr>healthy := False\<rparr>)\<rparr>)"

definition sendToServer ::
  "(string \<Rightarrow> bool) \<Rightarrow> (string \<Rightarrow> ChatRequest \<Rightarrow> string + ChatResponse) \<Rightarrow>
   SmartClient \<Rightarrow> string \<Rightarrow> ChatRequest \<Rightarrow> SmartClient \<times> (rpc_error + ChatResponse)" where
  "sendToServer dial post c addr req =
     (case connections c addr of
        None \<Rightarrow> (c, Inl (NoConnectionTo addr))
      | Some sc \<Rightarrow>
          if \<not> healthy sc then (c, Inl (MarkedAsDown addr))
          else
            (let reconnect =
                   (if \<not> client sc then
                      (case connectToServer dial addr of
                         Inl err \<Rightarrow> Inl err
                       | Inr _ \<Rightarrow>
                           Inr (c\<lparr>connections := (connections c)(addr \<mapsto>
                                     sc\<lparr>conn := True, client := True, healthy := True\<rparr>)\<rparr>))
                    else Inr c)
             in case reconnect of
                  Inl err \<Rightarrow> (c, Inl err)
                | Inr c1 \<Rightarrow>
                    (case post addr req of
                       Inl e \<Rightarrow> (c1, Inl (TransportError e))
                     | Inr resp \<Rightarrow> (c1, Inr resp))))"

text \<open>
  The loop \<^verbatim>\<open>for i, node := range nodes\<close> of \<^verbatim>\<open>SendMessage\<close>, with \<^verbatim>\<open>lastErr\<close> as an
  option (\<open>None\<close> is nil), followed by the code after the loop.
\<close>

fun SendMessage_loop ::
  "(string \<Rightarrow> bool) \<Rightarrow> (string \<Rightarrow> ChatRequest \<Rightarrow> string + ChatResponse) \<Rightarrow>
   SmartClient \<Rightarrow> ChatRequest \<Rightarrow> NodeInfo list \<Rightarrow> nat \<Rightarrow> rpc_error option \<Rightarrow>
   SmartClient \<times> (send_error + ChatResponse)" where
  "SendMessage_loop dial post c req [] i lastErr =
     (c\<lparr>stats_client := (stats_client c)\<lparr>FailedRequests := FailedRequests (stats_client c) + 1\<rparr>\<rparr>,
      Inl (AllServersExhausted lastErr))"
| "SendMessage_loop dial post c req (node # rest) i lastErr =
     (case sendToServer dial post c (Address node) req of
        (c1, Inr resp) \<Rightarrow>
          if Success resp then
            (let st = (stats_client c1)\<lparr>SuccessRequests := SuccessRequests (stats_client c1) + 1\<rparr> in
             (c1\<lparr>stats_client :=
                   (if i = 0 then st\<lparr>PrimaryHits := PrimaryHits st + 1\<rparr>
                    else st\<lparr>FailoverCount := FailoverCount st + 1\<rparr>)\<rparr>,
              Inr resp))
          else
            SendMessage_loop dial post (markConnectionUnhealthy c1 (Address node)) req rest (i + 1) None
      | (c1, Inl err) \<Rightarrow>
          SendMessage_loop dial post (markConnectionUnhealthy c1 (Address node)) req rest (i + 1) (Some err))"

text \<open>\<open>now\<close> is \<^verbatim>\<open>time.Now().Unix()\<close>; a panic of \<^verbatim>\<open>GetNodes\<close> ends the call.\<close>

definition SendMessage ::
  "(string \<Rightarrow> 32 word) \<Rightarrow> int \<Rightarrow> (string \<Rightarrow> bool) \<Rightarrow>
   (string \<Rightarrow> ChatRequest \<Rightarrow> string + ChatResponse) \<Rightarrow>
   int \<Rightarrow> SmartClient \<Rightarrow> string \<Rightarrow> string \<Rightarrow> string \<Rightarrow>
   panic + SmartClient \<times> (send_error + ChatResponse)" where
  "SendMessage H maxAlloc dial post now c0 chatID senderID message =
     (let c = c0\<lparr>stats_client := (stats_client c0)\<lparr>TotalRequests_client :=
                   TotalRequests_client (stats_client c0) + 1\<rparr>\<rparr> in
      case GetNodes H maxAlloc (ring c) chatID (MaxRetries (config c)) of
        Inl p \<Rightarrow> Inl p
      | Inr ns \<Rightarrow>
          if length ns = 0 then
            Inr (c\<lparr>stats_client := (stats_client c)\<lparr>FailedRequests :=
                      FailedRequests (stats_client c) + 1\<rparr>\<rparr>,
                 Inl NoServersAvailable)
          else
            (let req = \<lparr>ChatId = chatID, MessageText = message, SenderId = senderID,
                        Timestamp_req = now\<rparr>
             in Inr (SendMessage_loop dial post c req ns 0 None)))"

section \<open>Invariants of the cache\<close>

text \<open>
  \<open>tier_ok\<close> ties the map of a tier to its LRU list: the list has no duplicates, holds
  exactly the keys of the map, and is no longer than the capacity allows (an empty tier
  is the only possibility for a capacity below one). \<open>frame\<close> lists what the internal
  steps (demotion, eviction) leave alone.
\<close>

definition tier_ok :: "(string \<rightharpoonup> nat) \<Rightarrow> string list \<Rightarrow> int \<Rightarrow> bool" where
  "tier_ok m xs cap = (distinct xs \<and> dom m = set xs \<and> int (length xs) \<le> max 0 cap)"

definition cache_inv :: "HierarchicalCache \<Rightarrow> bool" where
  "cache_inv c =
     (tier_ok (l1Cache c) (l1List c) (l1Capacity c) \<and>
      tier_ok (l2Cache c) (l2List c) (l2Capacity c) \<and>
      set (l1List c) \<inter> set (l2List c) = {})"

definition stats_inv :: "CacheStats \<Rightarrow> bool" where
  "stats_inv st =
     (CacheHits st = L1Hits st + L2Hits st \<and> TotalRequests st = CacheHits st + CacheMisses st)"

definition heap_inv :: "ChatSession list \<Rightarrow> bool" where
  "heap_inv h = (\<forall>s \<in> set h. MessageCount s = int (length (Messages s)))"

definition ptr_inv :: "HierarchicalCache \<Rightarrow> bool" where
  "ptr_inv c =
     (\<forall>k p. l1Cache c k = Some p \<or> l2Cache c k = Some p \<longrightarrow> p < length (heap c))"

definition all_inv :: "HierarchicalCache \<Rightarrow> bool" where
  "all_inv c = (cache_inv c \<and> stats_inv (stats c) \<and> heap_inv (heap c) \<and> ptr_inv c)"

definition frame :: "HierarchicalCache \<Rightarrow> HierarchicalCache \<Rightarrow> bool" where
  "frame c c' =
     (l1Capacity c' = l1Capacity c \<and> l2Capacity c' = l2Capacity c \<and>
      heap c' = heap c \<and> serverID c' = serverID c \<and>
      TotalRequests (stats c') = TotalRequests (stats c) \<and>
      CacheHits (stats c') = CacheHits (stats c) \<and>
      CacheMisses (stats c') = CacheMisses (stats c) \<and>
      L1Hits (stats c') = L1Hits (stats c) \<and>
      L2Hits (stats c') = L2Hits (stats c) \<and>
      (\<forall>k p. l1Cache c' k = Some p \<or> l2Cache c' k = Some p \<longrightarrow>
             l1Cache c k = Some p \<or> l2Cache c k = Some p))"

definition GetOrCreate_post ::
  "HierarchicalCache \<Rightarrow> string \<Rightarrow> (nat \<Rightarrow> time) \<Rightarrow> HierarchicalCache \<Rightarrow> nat \<Rightarrow> CacheLevel \<Rightarrow> bool" where
  "GetOrCreate_post c k clk c' p lvl =
     (all_inv c' \<and> l1Capacity c' = l1Capacity c \<and> l2Capacity c' = l2Capacity c \<and>
      TotalRequests (stats c') = TotalRequests (stats c) + 1 \<and>
      p < length (heap c') \<and> l1Cache c' k = Some p \<and> l1List c' \<noteq> [] \<and> hd (l1List c') = k \<and>
      lvl = (if l1Cache c k \<noteq> None then LevelL1
             else if l2Cache c k \<noteq> None then LevelL2 else LevelMiss) \<and>
      heap c' = (if lvl = LevelMiss then heap c @ [newSession k clk]
                 else heap_upd p (\<lambda>s. s\<lparr>LastAccessed := clk 0\<rparr>) (heap c)) \<and>
      (lvl = LevelMiss \<longrightarrow> p = length (heap c)) \<and>
      (lvl = LevelL2 \<longrightarrow>
         Evictions (stats c') = Evictions (stats c) \<and>
         (Demotions (stats c') = Demotions (stats c) \<or>
          Demotions (stats c') = Demotions (stats c) + 1)))"

section \<open>Invariant of the ring\<close>



section \<open>Concrete inputs for the examples\<close>

text \<open>A clock that always reads 0, and the cache with capacities 2 and 3 after
  \<^verbatim>\<open>GetOrCreate("a"); GetOrCreate("b")\<close> under that clock.\<close>

definition clock0 :: "nat \<Rightarrow> time" where "clock0 n = 0"

definition cache_ab :: HierarchicalCache where
  "cache_ab =
     \<lparr>l1Cache = [''a'' \<mapsto> 0, ''b'' \<mapsto> 1], l1List = [''b'', ''a''], l1Capacity = 2,
      l2Cache = Map.empty, l2List = [], l2Capacity = 3,
      stats = \<lparr>TotalRequests = 2, CacheHits = 0, CacheMisses = 2, L1Hits = 0,
                L2Hits = 0, Evictions = 0, Demotions = 0\<rparr>,
      serverID = ''test'',
      heap = [newSession ''a'' clock0, newSession ''b'' clock0]\<rparr>"

text \<open>A stand-in for the hash (the length of the key) for running the ring on a
  concrete input; \<open>sort_key Hash\<close> stands in for \<^verbatim>\<open>sort.Slice\<close> there.\<close>

definition length_hash :: "string \<Rightarrow> 32 word" where
  "length_hash s = of_nat (length s)"

section \<open>Predicates about the client\<close>

text \<open>
  \<open>attempt_failed\<close> is the negation of the test \<^verbatim>\<open>err == nil && resp.Success\<close> that
  \<^verbatim>\<open>SendMessage\<close> applies to the result of \<^verbatim>\<open>sendToServer\<close>. \<open>marked_down c addr\<close>
  says that the connection for \<open>addr\<close>, if there is one, has \<^verbatim>\<open>healthy == false\<close>.
\<close>

definition attempt_failed :: "rpc_error + ChatResponse \<Rightarrow> bool" where
  "attempt_failed res = (case res of Inl err \<Rightarrow> True | Inr resp \<Rightarrow> \<not> Success resp)"

definition marked_down :: "SmartClient \<Rightarrow> string \<Rightarrow> bool" where
  "marked_down c addr = (\<forall>sc. connections c addr = Some sc \<longrightarrow> \<not> healthy sc)"

text \<open>
  A network in which every dial succeeds and every request is answered, at the
  transport level without error, by a response with \<^verbatim>\<open>Success == false\<close>; and the client
  with default configuration after \<^verbatim>\<open>AddServer("server-a", "localhost:50051", 1)\<close>.
\<close>

definition always_up :: "string \<Rightarrow> bool" where
  "always_up addr = True"

definition rejection :: ChatResponse where
  "rejection =
     \<lparr>Success = False, ServerId = ''server-a'', CacheLocation = LevelUnknown,
      MessageCount_resp = 0, ErrorMessage = ''server is shutting down''\<rparr>"

definition rejecting :: "string \<Rightarrow> ChatRequest \<Rightarrow> string + ChatResponse" where
  "rejecting addr req = Inr rejection"

definition client_a :: SmartClient where
  "client_a =
     AddServer length_hash (sort_key Hash) always_up (NewSmartClient DefaultClientConfig)
       ''server-a'' ''localhost:50051'' 1"

section \<open>Lemmas about the cache\<close>

lemma tier_ok_len: "tier_ok m xs cap \<Longrightarrow> card (dom m) = length xs"
  by (simp add: tier_ok_def distinct_card)

lemma tier_ok_butlast:
  assumes "tier_ok m xs cap" "xs \<noteq> []"
  shows "tier_ok (m(last xs := None)) (butlast xs) cap"
proof -
  from assms obtain ys where xs: "xs = ys @ [last xs]"
    by (metis append_butlast_last_id)
  from assms(1) have d: "distinct xs" and dm: "dom m = set xs" and le: "int (length xs) \<le> max 0 cap"
    by (simp_all add: tier_ok_def)
  have b: "butlast xs = ys" using xs by (metis butlast_snoc)
  have "distinct (ys @ [last xs])" using d xs by simp
  then have nin: "last xs \<notin> set ys" and dy: "distinct ys" by simp_all
  have "set xs = insert (last xs) (set ys)" using xs by (metis Un_insert_right append_Nil2 list.simps(15) set_append)
  then have "dom (m(last xs := None)) = set ys" using dm nin by auto
  moreover have "int (length ys) \<le> max 0 cap" using le xs by (metis b length_butlast diff_le_self of_nat_le_iff order_trans)
  ultimately show ?thesis using dy b by (simp add: tier_ok_def)
qed

lemma tier_ok_remove1:
  assumes "tier_ok m xs cap"
  shows "tier_ok (m(k := None)) (remove1 k xs) cap"
proof -
  from assms have d: "distinct xs" and dm: "dom m = set xs" and le: "int (length xs) \<le> max 0 cap"
    by (simp_all add: tier_ok_def)
  have "length (remove1 k xs) \<le> length xs" by (simp add: length_remove1)
  then have "int (length (remove1 k xs)) \<le> max 0 cap" using le by linarith
  moreover have "dom (m(k := None)) = set (remove1 k xs)" using d dm by auto
  ultimately show ?thesis using d by (simp add: tier_ok_def)
qed

lemma tier_ok_push:
  assumes "tier_ok m xs cap" "k \<notin> set xs" "int (length xs) < cap"
  shows "tier_ok (m(k \<mapsto> p)) (k # xs) cap"
  using assms by (auto simp: tier_ok_def)

lemma tier_ok_move_front:
  assumes "tier_ok m xs cap" "m k = Some p"
  shows "tier_ok m (k # remove1 k xs) cap"
proof -
  from assms have d: "distinct xs" and dm: "dom m = set xs" and le: "int (length xs) \<le> max 0 cap"
    by (simp_all add: tier_ok_def)
  have k: "k \<in> set xs" using assms(2) dm by auto
  have "0 < length xs" using k by (rule length_pos_if_in_set)
  then have "length (k # remove1 k xs) = length xs" using k by (simp add: length_remove1)
  moreover have "set (k # remove1 k xs) = set xs" using k d by auto
  moreover have "distinct (k # remove1 k xs)" using d by simp
  ultimately show ?thesis using dm le unfolding tier_ok_def by metis
qed


lemma addToL2_loop_never:
  assumes a: "addToL2_loop c = Some y"
  shows "\<not> (l2Capacity c \<le> 0 \<and> l2List c = [])"
proof (rule addToL2_loop.raw_induct [where P = "\<lambda>c y. \<not> (l2Capacity c \<le> 0 \<and> l2List c = [])", OF _ a])
  fix f :: "HierarchicalCache \<Rightarrow> HierarchicalCache option" and c y
  assume IH: "\<And>x y. f x = Some y \<Longrightarrow> \<not> (l2Capacity x \<le> 0 \<and> l2List x = [])"
    and F: "(if l2Capacity c \<le> int (card (dom (l2Cache c))) then f (evictFromL2 c) else Some c) = Some y"
  show "\<not> (l2Capacity c \<le> 0 \<and> l2List c = [])"
  proof
    assume st: "l2Capacity c \<le> 0 \<and> l2List c = []"
    then have e: "evictFromL2 c = c" by (simp add: evictFromL2_def)
    have "l2Capacity c \<le> int (card (dom (l2Cache c)))" using st by linarith
    then have "f c = Some y" using F e by simp
    then show False using IH st by blast
  qed
qed

lemma addToL2_loop_stuck: "l2Capacity c \<le> 0 \<Longrightarrow> l2List c = [] \<Longrightarrow> addToL2_loop c = None"
  using addToL2_loop_never [of c] by (cases "addToL2_loop c") auto

lemma evictFromL2_nonempty:
  "l2List c \<noteq> [] \<Longrightarrow>
   evictFromL2 c = c\<lparr>l2List := butlast (l2List c),
                     l2Cache := (l2Cache c)(last (l2List c) := None),
                     stats := (stats c)\<lparr>Evictions := Evictions (stats c) + 1\<rparr>\<rparr>"
  by (simp add: evictFromL2_def Let_def list.case_eq_if)

lemma addToL2_loop_inv:
  assumes ok: "tier_ok (l2Cache c) (l2List c) (l2Capacity c)"
  shows "addToL2_loop c =
           (if l2Capacity c \<le> 0 then None
            else if int (length (l2List c)) < l2Capacity c then Some c
            else Some (evictFromL2 c))"
proof -
  have len: "card (dom (l2Cache c)) = length (l2List c)" using ok by (rule tier_ok_len)
  have le: "int (length (l2List c)) \<le> max 0 (l2Capacity c)" using ok by (simp add: tier_ok_def)
  consider (a) "l2Capacity c \<le> 0" | (b) "0 < l2Capacity c" "int (length (l2List c)) < l2Capacity c"
    | (c) "0 < l2Capacity c" "\<not> int (length (l2List c)) < l2Capacity c" by linarith
  then show ?thesis
  proof cases
    case a
    then have "l2List c = []" using le by simp
    then show ?thesis using a addToL2_loop_stuck by simp
  next
    case b
    then show ?thesis by (subst addToL2_loop.simps) (simp add: len)
  next
    case c
    then have eq: "int (length (l2List c)) = l2Capacity c" using le by simp
    then have ne: "l2List c \<noteq> []" using c(1) by auto
    let ?e = "evictFromL2 c"
    have ev: "?e = c\<lparr>l2List := butlast (l2List c),
                     l2Cache := (l2Cache c)(last (l2List c) := None),
                     stats := (stats c)\<lparr>Evictions := Evictions (stats c) + 1\<rparr>\<rparr>"
      using ne by (rule evictFromL2_nonempty)
    have ok': "tier_ok (l2Cache ?e) (l2List ?e) (l2Capacity ?e)"
      using tier_ok_butlast [OF ok ne] by (simp add: ev)
    have len': "card (dom (l2Cache ?e)) = length (l2List ?e)" using ok' by (rule tier_ok_len)
    have lt: "int (length (l2List ?e)) < l2Capacity ?e"
      using eq ne by (cases "l2List c") (auto simp: ev)
    have 1: "addToL2_loop c = addToL2_loop ?e"
      by (subst addToL2_loop.simps) (simp add: len eq)
    have 2: "addToL2_loop ?e = Some ?e"
      using lt by (subst addToL2_loop.simps) (simp add: len')
    show ?thesis using 1 2 c by simp
  qed
qed

lemma addToL1_loop_never:
  assumes a: "addToL1_loop c = Some y"
  shows "\<not> (l1Capacity c \<le> 0 \<and> l1List c = [])"
proof (rule addToL1_loop.raw_induct [where P = "\<lambda>c y. \<not> (l1Capacity c \<le> 0 \<and> l1List c = [])", OF _ a])
  fix f :: "HierarchicalCache \<Rightarrow> (panic + HierarchicalCache) option" and c y
  assume IH: "\<And>x y. f x = Some y \<Longrightarrow> \<not> (l1Capacity x \<le> 0 \<and> l1List x = [])"
    and F: "(if l1Capacity c \<le> int (card (dom (l1Cache c)))
             then (case demoteFromL1 c of None \<Rightarrow> None | Some (Inl e) \<Rightarrow> Some (Inl e)
                   | Some (Inr c') \<Rightarrow> f c')
             else Some (Inr c)) = Some y"
  show "\<not> (l1Capacity c \<le> 0 \<and> l1List c = [])"
  proof
    assume st: "l1Capacity c \<le> 0 \<and> l1List c = []"
    then have e: "demoteFromL1 c = Some (Inr c)" by (simp add: demoteFromL1_def)
    have "l1Capacity c \<le> int (card (dom (l1Cache c)))" using st by linarith
    then have "f c = Some y" using F e by simp
    then show False using IH st by blast
  qed
qed

lemma addToL1_loop_stuck: "l1Capacity c \<le> 0 \<Longrightarrow> l1List c = [] \<Longrightarrow> addToL1_loop c = None"
  using addToL1_loop_never [of c] by (cases "addToL1_loop c") auto


lemma butlast_shorter: "xs \<noteq> [] \<Longrightarrow> int (length (butlast xs)) < int (length xs)"
  by (cases xs rule: rev_cases) simp_all

lemma demoteFromL1_nonempty:
  "l1List c \<noteq> [] \<Longrightarrow>
   demoteFromL1 c =
     (case l1Cache c (last (l1List c)) of
        None \<Rightarrow> Some (Inl NilDereference)
      | Some session \<Rightarrow>
          (case addToL2 (c\<lparr>l1List := butlast (l1List c),
                           l1Cache := (l1Cache c)(last (l1List c) := None),
                           stats := (stats c)\<lparr>Demotions := Demotions (stats c) + 1\<rparr>\<rparr>)
                  (last (l1List c)) session of
             None \<Rightarrow> None
           | Some c2 \<Rightarrow> Some (Inr c2)))"
  by (simp add: demoteFromL1_def Let_def list.case_eq_if)

lemma addToL2_inv:
  assumes ok: "tier_ok (l2Cache c) (l2List c) (l2Capacity c)"
  shows "addToL2 c k p =
           (if l2Capacity c \<le> 0 then None
            else Some (let c1 = (if int (length (l2List c)) < l2Capacity c then c else evictFromL2 c)
                       in c1\<lparr>l2List := k # l2List c1, l2Cache := (l2Cache c1)(k \<mapsto> p)\<rparr>))"
  by (simp add: addToL2_def addToL2_loop_inv [OF ok] Let_def)

lemma demoteFromL1_spec:
  assumes inv: "cache_inv c" and ne: "l1List c \<noteq> []" and cap: "0 < l2Capacity c"
  shows "\<exists>c2. demoteFromL1 c = Some (Inr c2) \<and> cache_inv c2 \<and> frame c c2 \<and>
           l1List c2 = butlast (l1List c) \<and>
           Demotions (stats c2) = Demotions (stats c) + 1 \<and>
           Evictions (stats c2) =
             (if int (length (l2List c)) < l2Capacity c then Evictions (stats c)
              else Evictions (stats c) + 1)"
proof -
  let ?k = "last (l1List c)"
  from inv have ok1: "tier_ok (l1Cache c) (l1List c) (l1Capacity c)"
    and ok2: "tier_ok (l2Cache c) (l2List c) (l2Capacity c)"
    and dj: "set (l1List c) \<inter> set (l2List c) = {}" by (simp_all add: cache_inv_def)
  have kin: "?k \<in> set (l1List c)" using ne by simp
  then have "?k \<in> dom (l1Cache c)" using ok1 by (simp add: tier_ok_def)
  then obtain p where p: "l1Cache c ?k = Some p" by auto
  have kn2: "?k \<notin> set (l2List c)" using kin dj by auto
  define c1 where "c1 = c\<lparr>l1List := butlast (l1List c),
                     l1Cache := (l1Cache c)(?k := None),
                     stats := (stats c)\<lparr>Demotions := Demotions (stats c) + 1\<rparr>\<rparr>"
  have c1f: "l2List c1 = l2List c" "l2Cache c1 = l2Cache c" "l2Capacity c1 = l2Capacity c"
    "l1Capacity c1 = l1Capacity c" "heap c1 = heap c" "serverID c1 = serverID c"
    "l1List c1 = butlast (l1List c)" "l1Cache c1 = (l1Cache c)(?k := None)"
    "stats c1 = (stats c)\<lparr>Demotions := Demotions (stats c) + 1\<rparr>"
    by (simp_all add: c1_def)
  have ok2': "tier_ok (l2Cache c1) (l2List c1) (l2Capacity c1)" using ok2 by (simp add: c1f)
  define cL where "cL = (if int (length (l2List c1)) < l2Capacity c1 then c1 else evictFromL2 c1)"
  define c2 where "c2 = cL\<lparr>l2List := ?k # l2List cL, l2Cache := (l2Cache cL)(?k \<mapsto> p)\<rparr>"
  have a2: "addToL2 c1 ?k p = Some c2"
    using cap by (simp add: addToL2_inv [OF ok2'] c2_def cL_def Let_def c1f)
  have dem: "demoteFromL1 c = Some (Inr c2)"
    using a2 unfolding c1_def by (simp add: demoteFromL1_nonempty [OF ne] p)
  have ok1': "tier_ok (l1Cache c1) (l1List c1) (l1Capacity c1)"
    using tier_ok_butlast [OF ok1 ne] by (simp add: c1f)
  have le2: "int (length (l2List c)) \<le> l2Capacity c" using ok2 cap by (simp add: tier_ok_def)
  have cLok: "tier_ok (l2Cache cL) (l2List cL) (l2Capacity cL) \<and>
              int (length (l2List cL)) < l2Capacity cL \<and>
              set (l2List cL) \<subseteq> set (l2List c) \<and>
              l1Cache cL = l1Cache c1 \<and> l1List cL = l1List c1 \<and> l1Capacity cL = l1Capacity c \<and>
              l2Capacity cL = l2Capacity c \<and> heap cL = heap c \<and> serverID cL = serverID c \<and>
              (\<forall>j q. l2Cache cL j = Some q \<longrightarrow> l2Cache c j = Some q) \<and>
              stats cL = (if int (length (l2List c)) < l2Capacity c then stats c1
                        else (stats c1)\<lparr>Evictions := Evictions (stats c1) + 1\<rparr>)"
  proof (cases "int (length (l2List c1)) < l2Capacity c1")
    case True
    then show ?thesis using ok2' by (simp add: cL_def c1f)
  next
    case False
    then have eq: "int (length (l2List c)) = l2Capacity c" using le2 by (simp add: c1f)
    then have ne2: "l2List c1 \<noteq> []" using cap by (auto simp: c1f)
    have pos: "0 < length (l2List c)" using ne2 by (simp add: c1f)
    have cl: "cL = evictFromL2 c1" using False by (simp add: cL_def)
    note ev = evictFromL2_nonempty [OF ne2]
    have "tier_ok (l2Cache cL) (l2List cL) (l2Capacity cL)"
      using tier_ok_butlast [OF ok2' ne2] by (simp add: cl ev)
    moreover have "int (length (l2List cL)) < l2Capacity cL"
      using eq butlast_shorter [OF ne2] by (simp add: cl ev c1f del: length_butlast)
    moreover have "set (l2List cL) \<subseteq> set (l2List c)"
      by (auto simp: cl ev c1f dest: in_set_butlastD)
    moreover have "\<forall>j q. l2Cache cL j = Some q \<longrightarrow> l2Cache c j = Some q"
      by (auto simp: cl ev c1f split: if_splits)
    moreover have "stats cL = (if int (length (l2List c)) < l2Capacity c then stats c1
                        else (stats c1)\<lparr>Evictions := Evictions (stats c1) + 1\<rparr>)"
      using eq by (simp add: cl ev)
    ultimately show ?thesis by (simp add: cl ev c1f)
  qed
  from cLok have cLt: "tier_ok (l2Cache cL) (l2List cL) (l2Capacity cL)"
    and cLlt: "int (length (l2List cL)) < l2Capacity cL" by blast+
  have kncL: "?k \<notin> set (l2List cL)" using kn2 cLok by auto
  have t2: "tier_ok (l2Cache c2) (l2List c2) (l2Capacity c2)"
    using tier_ok_push [OF cLt kncL cLlt, of p] by (simp add: c2_def)
  have t1: "tier_ok (l1Cache c2) (l1List c2) (l1Capacity c2)"
    using ok1' cLok by (simp add: c2_def c1f)
  have d: "distinct (l1List c)" using ok1 by (simp add: tier_ok_def)
  have "distinct (butlast (l1List c) @ [?k])" using d ne by simp
  then have knb: "?k \<notin> set (butlast (l1List c))" by simp
  have dj2: "set (l1List c2) \<inter> set (l2List c2) = {}"
    using cLok dj knb by (auto simp: c2_def c1f dest: in_set_butlastD)
  have inv2: "cache_inv c2" using t1 t2 dj2 by (simp add: cache_inv_def)
  have l1: "l1List c2 = butlast (l1List c)" using cLok by (simp add: c2_def c1f)
  have fr: "frame c c2"
    using cLok p by (auto simp: frame_def c2_def c1f split: if_splits)
  have dm: "Demotions (stats c2) = Demotions (stats c) + 1"
    using cLok by (simp add: c2_def c1f)
  have evs: "Evictions (stats c2) =
             (if int (length (l2List c)) < l2Capacity c then Evictions (stats c)
              else Evictions (stats c) + 1)"
    using cLok by (simp add: c2_def c1f)
  show ?thesis using dem inv2 fr l1 dm evs by blast
qed

lemma demoteFromL1_diverges:
  assumes inv: "cache_inv c" and ne: "l1List c \<noteq> []" and cap: "l2Capacity c \<le> 0"
  shows "demoteFromL1 c = None"
proof -
  let ?k = "last (l1List c)"
  from inv have ok1: "tier_ok (l1Cache c) (l1List c) (l1Capacity c)"
    and ok2: "tier_ok (l2Cache c) (l2List c) (l2Capacity c)" by (simp_all add: cache_inv_def)
  have "?k \<in> dom (l1Cache c)" using ok1 ne by (simp add: tier_ok_def)
  then obtain p where p: "l1Cache c ?k = Some p" by auto
  define c1 where "c1 = c\<lparr>l1List := butlast (l1List c),
                     l1Cache := (l1Cache c)(?k := None),
                     stats := (stats c)\<lparr>Demotions := Demotions (stats c) + 1\<rparr>\<rparr>"
  have ok2': "tier_ok (l2Cache c1) (l2List c1) (l2Capacity c1)" using ok2 by (simp add: c1_def)
  have a2: "addToL2 c1 ?k p = None"
    using cap by (simp add: addToL2_inv [OF ok2']) (simp add: c1_def)
  show ?thesis
    using a2 unfolding c1_def by (simp add: demoteFromL1_nonempty [OF ne] p)
qed


lemma frame_ptr:
  "frame c c' \<Longrightarrow> l1Cache c' k = Some p \<or> l2Cache c' k = Some p \<Longrightarrow>
   l1Cache c k = Some p \<or> l2Cache c k = Some p"
  unfolding frame_def by blast

lemma frame_refl: "frame c c"
  by (simp add: frame_def)

lemma addToL1_loop_inv:
  assumes inv: "cache_inv c"
  shows "addToL1_loop c =
           (if l1Capacity c \<le> 0 then None
            else if int (length (l1List c)) < l1Capacity c then Some (Inr c)
            else demoteFromL1 c)"
proof -
  from inv have ok1: "tier_ok (l1Cache c) (l1List c) (l1Capacity c)" by (simp add: cache_inv_def)
  have len: "card (dom (l1Cache c)) = length (l1List c)" using ok1 by (rule tier_ok_len)
  have le: "int (length (l1List c)) \<le> max 0 (l1Capacity c)" using ok1 by (simp add: tier_ok_def)
  consider (a) "l1Capacity c \<le> 0" | (b) "0 < l1Capacity c" "int (length (l1List c)) < l1Capacity c"
    | (c) "0 < l1Capacity c" "\<not> int (length (l1List c)) < l1Capacity c" by linarith
  then show ?thesis
  proof cases
    case a
    then have "l1List c = []" using le by simp
    then show ?thesis using a addToL1_loop_stuck by simp
  next
    case b
    then show ?thesis by (subst addToL1_loop.simps) (simp add: len)
  next
    case c
    then have eq: "int (length (l1List c)) = l1Capacity c" using le by simp
    then have ne: "l1List c \<noteq> []" using c(1) by auto
    have unf: "addToL1_loop c =
                 (case demoteFromL1 c of None \<Rightarrow> None | Some (Inl e) \<Rightarrow> Some (Inl e)
                  | Some (Inr c') \<Rightarrow> addToL1_loop c')"
      by (subst addToL1_loop.simps) (simp add: len eq)
    show ?thesis
    proof (cases "0 < l2Capacity c")
      case False
      then have "demoteFromL1 c = None" using demoteFromL1_diverges [OF inv ne] by simp
      then show ?thesis using unf c by simp
    next
      case True
      from demoteFromL1_spec [OF inv ne True] obtain c2 where
        d: "demoteFromL1 c = Some (Inr c2)" and inv2: "cache_inv c2" and fr: "frame c c2"
        and l1: "l1List c2 = butlast (l1List c)" by blast
      from inv2 have ok2: "tier_ok (l1Cache c2) (l1List c2) (l1Capacity c2)"
        by (simp add: cache_inv_def)
      have len2: "card (dom (l1Cache c2)) = length (l1List c2)" using ok2 by (rule tier_ok_len)
      have cap2: "l1Capacity c2 = l1Capacity c" using fr by (simp add: frame_def)
      have lt: "int (length (l1List c2)) < l1Capacity c2"
        using butlast_shorter [OF ne] eq by (simp add: l1 cap2 del: length_butlast)
      have "addToL1_loop c2 = Some (Inr c2)"
        using lt by (subst addToL1_loop.simps) (simp add: len2)
      then show ?thesis using unf d c by simp
    qed
  qed
qed

lemma addToL1_spec:
  assumes inv: "cache_inv c" and k1: "k \<notin> set (l1List c)" and k2: "k \<notin> set (l2List c)"
    and r: "addToL1 c k p = Some r"
  shows "\<exists>cL. r = Inr (cL\<lparr>l1List := k # l1List cL, l1Cache := (l1Cache cL)(k \<mapsto> p)\<rparr>) \<and>
           frame c cL \<and>
           cache_inv (cL\<lparr>l1List := k # l1List cL, l1Cache := (l1Cache cL)(k \<mapsto> p)\<rparr>) \<and>
           (int (length (l2List c)) < l2Capacity c \<longrightarrow> Evictions (stats cL) = Evictions (stats c)) \<and>
           (Demotions (stats cL) = Demotions (stats c) \<or>
            Demotions (stats cL) = Demotions (stats c) + 1)"
proof -
  from r obtain x where x: "addToL1_loop c = Some x" by (auto simp: addToL1_def split: option.splits)
  from x have pos: "0 < l1Capacity c"
    using addToL1_loop_inv [OF inv] by (auto split: if_splits)
  have "\<exists>cL. x = Inr cL \<and> frame c cL \<and> cache_inv cL \<and> int (length (l1List cL)) < l1Capacity cL \<and>
          set (l1List cL) \<subseteq> set (l1List c) \<and> set (l2List cL) \<subseteq> set (l1List c) \<union> set (l2List c) \<and>
          (int (length (l2List c)) < l2Capacity c \<longrightarrow> Evictions (stats cL) = Evictions (stats c)) \<and>
          (Demotions (stats cL) = Demotions (stats c) \<or>
           Demotions (stats cL) = Demotions (stats c) + 1)"
  proof (cases "int (length (l1List c)) < l1Capacity c")
    case True
    then have "x = Inr c" using x pos addToL1_loop_inv [OF inv] by simp
    then show ?thesis using True inv frame_refl by auto
  next
    case False
    then have dx: "demoteFromL1 c = Some x" using x pos addToL1_loop_inv [OF inv] by simp
    from inv have ok1: "tier_ok (l1Cache c) (l1List c) (l1Capacity c)" by (simp add: cache_inv_def)
    have le: "int (length (l1List c)) \<le> max 0 (l1Capacity c)" using ok1 by (simp add: tier_ok_def)
    have eq: "int (length (l1List c)) = l1Capacity c" using False le pos by simp
    then have ne: "l1List c \<noteq> []" using pos by auto
    have p2: "0 < l2Capacity c"
      using dx demoteFromL1_diverges [OF inv ne] by (cases "0 < l2Capacity c") auto
    from demoteFromL1_spec [OF inv ne p2] dx obtain c2 where
      x2: "x = Inr c2" and inv2: "cache_inv c2" and fr: "frame c c2"
      and l1: "l1List c2 = butlast (l1List c)"
      and dm: "Demotions (stats c2) = Demotions (stats c) + 1"
      and ev: "Evictions (stats c2) =
             (if int (length (l2List c)) < l2Capacity c then Evictions (stats c)
              else Evictions (stats c) + 1)" by auto
    have cap2: "l1Capacity c2 = l1Capacity c" using fr by (simp add: frame_def)
    have lt: "int (length (l1List c2)) < l1Capacity c2"
      using butlast_shorter [OF ne] eq by (simp add: l1 cap2 del: length_butlast)
    have s1: "set (l1List c2) \<subseteq> set (l1List c)" by (auto simp: l1 dest: in_set_butlastD)
    have s2: "set (l2List c2) \<subseteq> set (l1List c) \<union> set (l2List c)"
    proof
      fix j assume "j \<in> set (l2List c2)"
      then have "j \<in> dom (l2Cache c2)" using inv2 by (simp add: cache_inv_def tier_ok_def)
      then obtain q where "l2Cache c2 j = Some q" by auto
      then have "l1Cache c j = Some q \<or> l2Cache c j = Some q" using fr by (simp add: frame_def)
      then have "j \<in> dom (l1Cache c) \<or> j \<in> dom (l2Cache c)" by auto
      then show "j \<in> set (l1List c) \<union> set (l2List c)"
        using inv by (simp add: cache_inv_def tier_ok_def)
    qed
    show ?thesis using x2 inv2 fr lt s1 s2 ev dm by simp
  qed
  then obtain cL where xl: "x = Inr cL" and fr: "frame c cL" and invL: "cache_inv cL"
    and lt: "int (length (l1List cL)) < l1Capacity cL"
    and s1: "set (l1List cL) \<subseteq> set (l1List c)"
    and s2: "set (l2List cL) \<subseteq> set (l1List c) \<union> set (l2List c)"
    and ev: "int (length (l2List c)) < l2Capacity c \<longrightarrow> Evictions (stats cL) = Evictions (stats c)"
    and dm: "Demotions (stats cL) = Demotions (stats c) \<or>
             Demotions (stats cL) = Demotions (stats c) + 1"
    by blast
  let ?c' = "cL\<lparr>l1List := k # l1List cL, l1Cache := (l1Cache cL)(k \<mapsto> p)\<rparr>"
  have rr: "r = Inr ?c'" using r x xl by (simp add: addToL1_def)
  from invL have okL1: "tier_ok (l1Cache cL) (l1List cL) (l1Capacity cL)"
    and okL2: "tier_ok (l2Cache cL) (l2List cL) (l2Capacity cL)"
    and djL: "set (l1List cL) \<inter> set (l2List cL) = {}" by (simp_all add: cache_inv_def)
  have kn1: "k \<notin> set (l1List cL)" using k1 s1 by auto
  have kn2: "k \<notin> set (l2List cL)" using k1 k2 s2 by auto
  have "tier_ok (l1Cache ?c') (l1List ?c') (l1Capacity ?c')"
    using tier_ok_push [OF okL1 kn1 lt, of p] by simp
  moreover have "tier_ok (l2Cache ?c') (l2List ?c') (l2Capacity ?c')" using okL2 by simp
  moreover have "set (l1List ?c') \<inter> set (l2List ?c') = {}" using djL kn2 by simp
  ultimately have "cache_inv ?c'" by (simp add: cache_inv_def)
  then show ?thesis using rr fr ev dm by blast
qed

lemma addToL1_terminates:
  assumes inv: "cache_inv c" and c1: "0 < l1Capacity c" and c2: "0 < l2Capacity c"
  shows "addToL1 c k p \<noteq> None"
proof (cases "int (length (l1List c)) < l1Capacity c")
  case True
  then show ?thesis using c1 by (simp add: addToL1_def addToL1_loop_inv [OF inv])
next
  case False
  then have ne: "l1List c \<noteq> []" using c1 by auto
  from demoteFromL1_spec [OF inv ne c2] obtain x where "demoteFromL1 c = Some (Inr x)" by blast
  then show ?thesis using False c1 by (simp add: addToL1_def addToL1_loop_inv [OF inv])
qed

lemma addToL1_diverges_cap1:
  assumes inv: "cache_inv c" and c1: "l1Capacity c \<le> 0"
  shows "addToL1 c k p = None"
  using c1 by (simp add: addToL1_def addToL1_loop_inv [OF inv])

lemma addToL1_diverges_cap2:
  assumes inv: "cache_inv c" and c1: "0 < l1Capacity c"
    and full: "int (length (l1List c)) = l1Capacity c" and c2: "l2Capacity c \<le> 0"
  shows "addToL1 c k p = None"
proof -
  have ne: "l1List c \<noteq> []" using c1 full by auto
  show ?thesis
    using c1 full demoteFromL1_diverges [OF inv ne c2]
    by (simp add: addToL1_def addToL1_loop_inv [OF inv])
qed


lemma length_heap_upd [simp]: "length (heap_upd p f h) = length h"
  by (simp add: heap_upd_def)

lemma heap_inv_upd:
  assumes "heap_inv h"
    and "\<And>s. MessageCount s = int (length (Messages s)) \<Longrightarrow>
              MessageCount (f s) = int (length (Messages (f s)))"
  shows "heap_inv (heap_upd p f h)"
proof -
  have "\<And>s. s \<in> set (h[p := f (h ! p)]) \<Longrightarrow> p < length h \<Longrightarrow>
           MessageCount s = int (length (Messages s))"
  proof -
    fix s assume s: "s \<in> set (h[p := f (h ! p)])" and pl: "p < length h"
    from s have "s = f (h ! p) \<or> s \<in> set h" using set_update_subset_insert by fastforce
    moreover have "h ! p \<in> set h" using pl by simp
    ultimately show "MessageCount s = int (length (Messages s))"
      using assms by (auto simp: heap_inv_def)
  qed
  then show ?thesis using assms(1) by (auto simp: heap_inv_def heap_upd_def)
qed

lemma GetOrCreate_L1:
  assumes inv: "all_inv c" and hit: "l1Cache c k = Some p"
  shows "\<exists>c'. GetOrCreate c k clk = Some (Inr (c', p, LevelL1)) \<and> GetOrCreate_post c k clk c' p LevelL1"
proof -
  define c' where "c' = c\<lparr>stats := (stats c)\<lparr>TotalRequests := TotalRequests (stats c) + 1,
                                           CacheHits := CacheHits (stats c) + 1,
                                           L1Hits := L1Hits (stats c) + 1\<rparr>,
                       heap := heap_upd p (\<lambda>s. s\<lparr>LastAccessed := clk 0\<rparr>) (heap c),
                       l1List := k # remove1 k (l1List c)\<rparr>"
  have g: "GetOrCreate c k clk = Some (Inr (c', p, LevelL1))"
    unfolding c'_def by (simp add: GetOrCreate_def Let_def hit)
  from inv have ci: "cache_inv c" and si: "stats_inv (stats c)" and hi: "heap_inv (heap c)"
    and pi: "ptr_inv c" by (simp_all add: all_inv_def)
  from ci have ok1: "tier_ok (l1Cache c) (l1List c) (l1Capacity c)"
    and ok2: "tier_ok (l2Cache c) (l2List c) (l2Capacity c)"
    and dj: "set (l1List c) \<inter> set (l2List c) = {}" by (simp_all add: cache_inv_def)
  have kin: "k \<in> set (l1List c)" using hit ok1 by (auto simp: tier_ok_def)
  have f: "l1Cache c' = l1Cache c" "l2Cache c' = l2Cache c" "l2List c' = l2List c"
    "l1List c' = k # remove1 k (l1List c)" "l1Capacity c' = l1Capacity c"
    "l2Capacity c' = l2Capacity c"
    "heap c' = heap_upd p (\<lambda>s. s\<lparr>LastAccessed := clk 0\<rparr>) (heap c)"
    "stats c' = (stats c)\<lparr>TotalRequests := TotalRequests (stats c) + 1,
                                           CacheHits := CacheHits (stats c) + 1,
                                           L1Hits := L1Hits (stats c) + 1\<rparr>"
    by (simp_all add: c'_def)
  have t1: "tier_ok (l1Cache c') (l1List c') (l1Capacity c')"
    using tier_ok_move_front [OF ok1 hit] by (simp add: f)
  have "set (k # remove1 k (l1List c)) = set (l1List c)" using kin ok1 by (auto simp: tier_ok_def)
  then have dj': "set (l1List c') \<inter> set (l2List c') = {}" using dj by (simp add: f del: list.set)
  have ci': "cache_inv c'" using t1 ok2 dj' by (simp add: cache_inv_def f)
  have si': "stats_inv (stats c')" using si by (simp add: stats_inv_def f)
  have hi': "heap_inv (heap c')" unfolding f by (rule heap_inv_upd [OF hi]) simp
  have pi': "ptr_inv c'" using pi by (simp add: ptr_inv_def f)
  have pl: "p < length (heap c')" using pi hit by (auto simp: ptr_inv_def f)
  have "GetOrCreate_post c k clk c' p LevelL1"
    using ci' si' hi' pi' pl hit by (simp add: GetOrCreate_post_def all_inv_def f)
  then show ?thesis using g by blast
qed


lemma GetOrCreate_L2:
  assumes inv: "all_inv c" and n1: "l1Cache c k = None" and hit: "l2Cache c k = Some p"
  shows "(\<forall>r. GetOrCreate c k clk = Some r \<longrightarrow>
            (\<exists>c'. r = Inr (c', p, LevelL2) \<and> GetOrCreate_post c k clk c' p LevelL2)) \<and>
         (0 < l1Capacity c \<longrightarrow> GetOrCreate c k clk \<noteq> None) \<and>
         (l1Capacity c \<le> 0 \<longrightarrow> GetOrCreate c k clk = None)"
proof -
  define cP where "cP = c\<lparr>stats := (stats c)\<lparr>TotalRequests := TotalRequests (stats c) + 1,
                                           CacheHits := CacheHits (stats c) + 1,
                                           L2Hits := L2Hits (stats c) + 1\<rparr>,
                       heap := heap_upd p (\<lambda>s. s\<lparr>LastAccessed := clk 0\<rparr>) (heap c),
                       l2List := remove1 k (l2List c),
                       l2Cache := (l2Cache c)(k := None)\<rparr>"
  have g: "GetOrCreate c k clk =
             (case addToL1 cP k p of None \<Rightarrow> None | Some (Inl e) \<Rightarrow> Some (Inl e)
              | Some (Inr c') \<Rightarrow> Some (Inr (c', p, LevelL2)))"
    unfolding cP_def by (simp add: GetOrCreate_def promoteToL1_def Let_def hit n1)
  from inv have ci: "cache_inv c" and si: "stats_inv (stats c)" and hi: "heap_inv (heap c)"
    and pi: "ptr_inv c" by (simp_all add: all_inv_def)
  from ci have ok1: "tier_ok (l1Cache c) (l1List c) (l1Capacity c)"
    and ok2: "tier_ok (l2Cache c) (l2List c) (l2Capacity c)"
    and dj: "set (l1List c) \<inter> set (l2List c) = {}" by (simp_all add: cache_inv_def)
  have f: "l1Cache cP = l1Cache c" "l2Cache cP = (l2Cache c)(k := None)"
    "l2List cP = remove1 k (l2List c)"
    "l1List cP = l1List c" "l1Capacity cP = l1Capacity c"
    "l2Capacity cP = l2Capacity c"
    "heap cP = heap_upd p (\<lambda>s. s\<lparr>LastAccessed := clk 0\<rparr>) (heap c)"
    "stats cP = (stats c)\<lparr>TotalRequests := TotalRequests (stats c) + 1,
                                           CacheHits := CacheHits (stats c) + 1,
                                           L2Hits := L2Hits (stats c) + 1\<rparr>"
    by (simp_all add: cP_def)
  have kin: "k \<in> set (l2List c)" using hit ok2 by (auto simp: tier_ok_def)
  have d2: "distinct (l2List c)" using ok2 by (simp add: tier_ok_def)
  have k1: "k \<notin> set (l1List cP)" using n1 ok1 by (auto simp: tier_ok_def f)
  have k2: "k \<notin> set (l2List cP)" using d2 by (simp add: f)
  have t2: "tier_ok (l2Cache cP) (l2List cP) (l2Capacity cP)"
    using tier_ok_remove1 [OF ok2, of k] by (simp add: f)
  have "set (remove1 k (l2List c)) \<subseteq> set (l2List c)" by (rule set_remove1_subset)
  then have djP: "set (l1List cP) \<inter> set (l2List cP) = {}" using dj by (auto simp: f)
  have ciP: "cache_inv cP" using ok1 t2 djP by (simp add: cache_inv_def f)
  have pos2: "0 < l2Capacity c"
  proof -
    have "l2List c \<noteq> []" using kin by auto
    then have "0 < int (length (l2List c))" by simp
    moreover have "int (length (l2List c)) \<le> max 0 (l2Capacity c)" using ok2 by (simp add: tier_ok_def)
    ultimately show ?thesis by linarith
  qed
  have room: "int (length (l2List cP)) < l2Capacity cP"
  proof -
    have "length (remove1 k (l2List c)) = length (l2List c) - 1" using kin by (simp add: length_remove1)
    moreover have "0 < length (l2List c)" using kin by (rule length_pos_if_in_set)
    moreover have "int (length (l2List c)) \<le> l2Capacity c" using ok2 pos2 by (simp add: tier_ok_def)
    ultimately have "int (length (remove1 k (l2List c))) < l2Capacity c" by linarith
    then show ?thesis by (simp only: f)
  qed
  have A: "\<forall>r. GetOrCreate c k clk = Some r \<longrightarrow>
            (\<exists>c'. r = Inr (c', p, LevelL2) \<and> GetOrCreate_post c k clk c' p LevelL2)"
  proof (intro allI impI)
    fix r assume r: "GetOrCreate c k clk = Some r"
    then obtain r' where r': "addToL1 cP k p = Some r'" using g by (auto split: option.splits)
    from addToL1_spec [OF ciP k1 k2 r'] room obtain cL where
      rl: "r' = Inr (cL\<lparr>l1List := k # l1List cL, l1Cache := (l1Cache cL)(k \<mapsto> p)\<rparr>)"
      and fr: "frame cP cL"
      and ci': "cache_inv (cL\<lparr>l1List := k # l1List cL, l1Cache := (l1Cache cL)(k \<mapsto> p)\<rparr>)"
      and ev: "Evictions (stats cL) = Evictions (stats cP)"
      and dm: "Demotions (stats cL) = Demotions (stats cP) \<or>
               Demotions (stats cL) = Demotions (stats cP) + 1" by blast
    let ?c' = "cL\<lparr>l1List := k # l1List cL, l1Cache := (l1Cache cL)(k \<mapsto> p)\<rparr>"
    have rr: "r = Inr (?c', p, LevelL2)" using r g r' rl by simp
    have pl: "p < length (heap c)" using pi hit by (auto simp: ptr_inv_def)
    have hp: "heap ?c' = heap_upd p (\<lambda>s. s\<lparr>LastAccessed := clk 0\<rparr>) (heap c)"
      using fr by (simp add: frame_def f)
    have si': "stats_inv (stats ?c')" using si fr by (simp add: stats_inv_def frame_def f)
    have hi': "heap_inv (heap ?c')" unfolding hp by (rule heap_inv_upd [OF hi]) simp
    have pi': "ptr_inv ?c'"
      unfolding ptr_inv_def
    proof (intro allI impI)
      fix j q assume a: "l1Cache ?c' j = Some q \<or> l2Cache ?c' j = Some q"
      show "q < length (heap ?c')"
      proof (cases "j = k \<and> q = p")
        case True then show ?thesis using pl hp by simp
      next
        case False
        with a have "l1Cache cL j = Some q \<or> l2Cache cL j = Some q" by (auto split: if_splits)
        then have "l1Cache cP j = Some q \<or> l2Cache cP j = Some q" by (rule frame_ptr [OF fr])
        then have "l1Cache c j = Some q \<or> l2Cache c j = Some q" by (auto simp: f split: if_splits)
        then show ?thesis using pi hp by (auto simp: ptr_inv_def)
      qed
    qed
    have "GetOrCreate_post c k clk ?c' p LevelL2"
      using ci' si' hi' pi' pl hit n1 fr ev dm hp
      by (simp add: GetOrCreate_post_def all_inv_def frame_def f)
    then show "\<exists>c'. r = Inr (c', p, LevelL2) \<and> GetOrCreate_post c k clk c' p LevelL2"
      using rr by blast
  qed
  have B: "0 < l1Capacity c \<longrightarrow> GetOrCreate c k clk \<noteq> None"
  proof
    assume "0 < l1Capacity c"
    then have "addToL1 cP k p \<noteq> None" using addToL1_terminates [OF ciP] pos2 by (simp add: f)
    then show "GetOrCreate c k clk \<noteq> None" using g by (auto split: option.splits sum.splits)
  qed
  have C: "l1Capacity c \<le> 0 \<longrightarrow> GetOrCreate c k clk = None"
    using addToL1_diverges_cap1 [OF ciP] g by (simp add: f)
  show ?thesis using A B C by blast
qed

lemma GetOrCreate_Miss:
  assumes inv: "all_inv c" and n1: "l1Cache c k = None" and n2: "l2Cache c k = None"
  shows "(\<forall>r. GetOrCreate c k clk = Some r \<longrightarrow>
            (\<exists>c'. r = Inr (c', length (heap c), LevelMiss) \<and>
                  GetOrCreate_post c k clk c' (length (heap c)) LevelMiss)) \<and>
         (0 < l1Capacity c \<and> 0 < l2Capacity c \<longrightarrow> GetOrCreate c k clk \<noteq> None) \<and>
         (l1Capacity c \<le> 0 \<longrightarrow> GetOrCreate c k clk = None) \<and>
         (0 < l1Capacity c \<and> int (length (l1List c)) = l1Capacity c \<and> l2Capacity c \<le> 0 \<longrightarrow>
            GetOrCreate c k clk = None)"
proof -
  let ?p = "length (heap c)"
  define cP where "cP = c\<lparr>stats := (stats c)\<lparr>TotalRequests := TotalRequests (stats c) + 1,
                                           CacheMisses := CacheMisses (stats c) + 1\<rparr>,
                       heap := heap c @ [newSession k clk]\<rparr>"
  have g: "GetOrCreate c k clk =
             (case addToL1 cP k ?p of None \<Rightarrow> None | Some (Inl e) \<Rightarrow> Some (Inl e)
              | Some (Inr c') \<Rightarrow> Some (Inr (c', ?p, LevelMiss)))"
    unfolding cP_def by (simp add: GetOrCreate_def Let_def n1 n2)
  from inv have ci: "cache_inv c" and si: "stats_inv (stats c)" and hi: "heap_inv (heap c)"
    and pi: "ptr_inv c" by (simp_all add: all_inv_def)
  from ci have ok1: "tier_ok (l1Cache c) (l1List c) (l1Capacity c)"
    and ok2: "tier_ok (l2Cache c) (l2List c) (l2Capacity c)"
    and dj: "set (l1List c) \<inter> set (l2List c) = {}" by (simp_all add: cache_inv_def)
  have f: "l1Cache cP = l1Cache c" "l2Cache cP = l2Cache c"
    "l2List cP = l2List c"
    "l1List cP = l1List c" "l1Capacity cP = l1Capacity c"
    "l2Capacity cP = l2Capacity c"
    "heap cP = heap c @ [newSession k clk]"
    "stats cP = (stats c)\<lparr>TotalRequests := TotalRequests (stats c) + 1,
                                           CacheMisses := CacheMisses (stats c) + 1\<rparr>"
    by (simp_all add: cP_def)
  have k1: "k \<notin> set (l1List cP)" using n1 ok1 by (auto simp: tier_ok_def f)
  have k2: "k \<notin> set (l2List cP)" using n2 ok2 by (auto simp: tier_ok_def f)
  have ciP: "cache_inv cP" using ci by (simp add: cache_inv_def f)
  have A: "\<forall>r. GetOrCreate c k clk = Some r \<longrightarrow>
            (\<exists>c'. r = Inr (c', ?p, LevelMiss) \<and> GetOrCreate_post c k clk c' ?p LevelMiss)"
  proof (intro allI impI)
    fix r assume r: "GetOrCreate c k clk = Some r"
    then obtain r' where r': "addToL1 cP k ?p = Some r'" using g by (auto split: option.splits)
    from addToL1_spec [OF ciP k1 k2 r'] obtain cL where
      rl: "r' = Inr (cL\<lparr>l1List := k # l1List cL, l1Cache := (l1Cache cL)(k \<mapsto> ?p)\<rparr>)"
      and fr: "frame cP cL"
      and ci': "cache_inv (cL\<lparr>l1List := k # l1List cL, l1Cache := (l1Cache cL)(k \<mapsto> ?p)\<rparr>)"
      by blast
    let ?c' = "cL\<lparr>l1List := k # l1List cL, l1Cache := (l1Cache cL)(k \<mapsto> ?p)\<rparr>"
    have rr: "r = Inr (?c', ?p, LevelMiss)" using r g r' rl by simp
    have hp: "heap ?c' = heap c @ [newSession k clk]"
      using fr by (simp add: frame_def f)
    have si': "stats_inv (stats ?c')" using si fr by (simp add: stats_inv_def frame_def f)
    have hi': "heap_inv (heap ?c')" unfolding hp using hi by (simp add: heap_inv_def newSession_def)
    have pi': "ptr_inv ?c'"
      unfolding ptr_inv_def
    proof (intro allI impI)
      fix j q assume a: "l1Cache ?c' j = Some q \<or> l2Cache ?c' j = Some q"
      show "q < length (heap ?c')"
      proof (cases "j = k \<and> q = ?p")
        case True then show ?thesis using hp by simp
      next
        case False
        with a have "l1Cache cL j = Some q \<or> l2Cache cL j = Some q" by (auto split: if_splits)
        then have "l1Cache cP j = Some q \<or> l2Cache cP j = Some q" by (rule frame_ptr [OF fr])
        then have "l1Cache c j = Some q \<or> l2Cache c j = Some q" by (auto simp: f split: if_splits)
        then have "q < length (heap c)" using pi by (auto simp: ptr_inv_def)
        then show ?thesis using hp by simp
      qed
    qed
    have "GetOrCreate_post c k clk ?c' ?p LevelMiss"
      using ci' si' hi' pi' n1 n2 fr hp
      by (simp add: GetOrCreate_post_def all_inv_def frame_def f)
    then show "\<exists>c'. r = Inr (c', ?p, LevelMiss) \<and> GetOrCreate_post c k clk c' ?p LevelMiss"
      using rr by blast
  qed
  have B: "0 < l1Capacity c \<and> 0 < l2Capacity c \<longrightarrow> GetOrCreate c k clk \<noteq> None"
  proof
    assume "0 < l1Capacity c \<and> 0 < l2Capacity c"
    then have "addToL1 cP k ?p \<noteq> None" using addToL1_terminates [OF ciP] by (simp add: f)
    then show "GetOrCreate c k clk \<noteq> None" using g by (auto split: option.splits sum.splits)
  qed
  have C: "l1Capacity c \<le> 0 \<longrightarrow> GetOrCreate c k clk = None"
    using addToL1_diverges_cap1 [OF ciP] g by (simp add: f)
  have D: "0 < l1Capacity c \<and> int (length (l1List c)) = l1Capacity c \<and> l2Capacity c \<le> 0 \<longrightarrow>
            GetOrCreate c k clk = None"
    using addToL1_diverges_cap2 [OF ciP] g by (simp add: f)
  show ?thesis using A B C D by blast
qed


lemma GetOrCreate_inv:
  assumes inv: "all_inv c" and r: "GetOrCreate c k clk = Some r"
  shows "\<exists>c' p lvl. r = Inr (c', p, lvl) \<and> GetOrCreate_post c k clk c' p lvl"
proof (cases "l1Cache c k")
  case (Some p)
  then show ?thesis using GetOrCreate_L1 [OF inv Some, of clk] r by auto
next
  case n1: None
  show ?thesis
  proof (cases "l2Cache c k")
    case (Some p)
    then show ?thesis using GetOrCreate_L2 [OF inv n1 Some, of clk] r by blast
  next
    case None
    then show ?thesis using GetOrCreate_Miss [OF inv n1 None, of clk] r by blast
  qed
qed

lemma GetOrCreate_terminates:
  assumes inv: "all_inv c" and c1: "0 < l1Capacity c" and c2: "0 < l2Capacity c"
  shows "GetOrCreate c k clk \<noteq> None"
proof (cases "l1Cache c k")
  case (Some p)
  then show ?thesis using GetOrCreate_L1 [OF inv Some, of clk] by auto
next
  case n1: None
  show ?thesis
  proof (cases "l2Cache c k")
    case (Some p)
    then show ?thesis using GetOrCreate_L2 [OF inv n1 Some, of clk] c1 by blast
  next
    case None
    then show ?thesis using GetOrCreate_Miss [OF inv n1 None, of clk] c1 c2 by blast
  qed
qed

lemma AddMessage_unfold:
  "GetOrCreate c k clk = Some (Inr (c1, p, lvl)) \<Longrightarrow>
   AddMessage c k msg clk =
     Some (Inr (c1\<lparr>heap := heap_upd p (\<lambda>s. s\<lparr>Messages := Messages s @ [msg],
                                               MessageCount := MessageCount s + 1,
                                               LastAccessed := clk 2\<rparr>) (heap c1)\<rparr>, p, lvl))"
  by (simp add: AddMessage_def)

lemma AddMessage_None: "(AddMessage c k msg clk = None) = (GetOrCreate c k clk = None)"
  by (auto simp: AddMessage_def split: option.splits sum.splits)

lemma all_inv_append:
  assumes inv: "all_inv c1"
  shows "all_inv (c1\<lparr>heap := heap_upd p (\<lambda>s. s\<lparr>Messages := Messages s @ [msg],
                                               MessageCount := MessageCount s + 1,
                                               LastAccessed := t\<rparr>) (heap c1)\<rparr>)"
proof -
  from inv have ci: "cache_inv c1" and si: "stats_inv (stats c1)" and hi: "heap_inv (heap c1)"
    and pi: "ptr_inv c1" by (simp_all add: all_inv_def)
  have "heap_inv (heap_upd p (\<lambda>s. s\<lparr>Messages := Messages s @ [msg],
                                               MessageCount := MessageCount s + 1,
                                               LastAccessed := t\<rparr>) (heap c1))"
    by (rule heap_inv_upd [OF hi]) simp
  then show ?thesis using ci si pi by (simp add: all_inv_def cache_inv_def ptr_inv_def)
qed

lemma AddMessage_inv:
  assumes inv: "all_inv c" and r: "AddMessage c k msg clk = Some r"
  shows "\<exists>c' p lvl. r = Inr (c', p, lvl) \<and> all_inv c' \<and>
           l1Capacity c' = l1Capacity c \<and> l2Capacity c' = l2Capacity c \<and>
           TotalRequests (stats c') = TotalRequests (stats c) + 1"
proof -
  from r obtain g where g: "GetOrCreate c k clk = Some g"
    by (auto simp: AddMessage_def split: option.splits)
  from GetOrCreate_inv [OF inv g] obtain c1 p lvl where
    gg: "g = Inr (c1, p, lvl)" and post: "GetOrCreate_post c k clk c1 p lvl" by blast
  from post have i1: "all_inv c1" and caps: "l1Capacity c1 = l1Capacity c" "l2Capacity c1 = l2Capacity c"
    and tr: "TotalRequests (stats c1) = TotalRequests (stats c) + 1"
    by (simp_all add: GetOrCreate_post_def)
  show ?thesis
    using r AddMessage_unfold [of c k clk c1 p lvl msg] g gg all_inv_append [OF i1] caps tr
    by auto
qed

lemma all_inv_Clear: "all_inv c \<Longrightarrow> all_inv (Clear c)"
  by (simp add: all_inv_def cache_inv_def tier_ok_def ptr_inv_def Clear_def)

lemma all_inv_New: "all_inv (NewHierarchicalCache sid cap1 cap2)"
  by (simp add: all_inv_def cache_inv_def tier_ok_def ptr_inv_def NewHierarchicalCache_def
      stats_inv_def zeroStats_def heap_inv_def)

lemma apply_op_inv:
  assumes inv: "all_inv c" and r: "apply_op c op = Some r"
  shows "\<exists>c'. r = Inr c' \<and> all_inv c' \<and>
           l1Capacity c' = l1Capacity c \<and> l2Capacity c' = l2Capacity c"
proof (cases op)
  case (OpGetOrCreate k clk)
  with r obtain g where g: "GetOrCreate c k clk = Some g" by (auto split: option.splits)
  from GetOrCreate_inv [OF inv g] obtain c1 p lvl where
    gg: "g = Inr (c1, p, lvl)" and post: "GetOrCreate_post c k clk c1 p lvl" by blast
  then show ?thesis using r g OpGetOrCreate by (auto simp: GetOrCreate_post_def)
next
  case (OpAddMessage k msg clk)
  with r obtain g where g: "AddMessage c k msg clk = Some g" by (auto split: option.splits)
  from AddMessage_inv [OF inv g] show ?thesis using r g OpAddMessage by auto
next
  case (OpGetSession k)
  then show ?thesis using r inv by auto
next
  case OpClear
  then show ?thesis using r all_inv_Clear [OF inv] by (auto simp: Clear_def)
qed

lemma run_ops_inv:
  "all_inv c \<Longrightarrow> run_ops c ops = Some r \<Longrightarrow>
   \<exists>c'. r = Inr c' \<and> all_inv c' \<and> l1Capacity c' = l1Capacity c \<and> l2Capacity c' = l2Capacity c"
proof (induction ops arbitrary: c)
  case Nil
  then show ?case by auto
next
  case (Cons op ops)
  from Cons.prems(2) obtain x where x: "apply_op c op = Some x" by (auto split: option.splits)
  from apply_op_inv [OF Cons.prems(1) x] obtain c1 where
    x1: "x = Inr c1" and i1: "all_inv c1"
    and caps: "l1Capacity c1 = l1Capacity c" "l2Capacity c1 = l2Capacity c" by blast
  have "run_ops c1 ops = Some r" using Cons.prems(2) x x1 by simp
  from Cons.IH [OF i1 this] show ?case using caps by auto
qed

lemma apply_op_terminates:
  assumes inv: "all_inv c" and c1: "0 < l1Capacity c" and c2: "0 < l2Capacity c"
  shows "apply_op c op \<noteq> None"
proof (cases op)
  case (OpGetOrCreate k clk)
  then show ?thesis using GetOrCreate_terminates [OF inv c1 c2, of k clk]
    by (auto split: option.splits sum.splits)
next
  case (OpAddMessage k msg clk)
  then show ?thesis using GetOrCreate_terminates [OF inv c1 c2, of k clk] AddMessage_None [of c k msg clk]
    by (auto split: option.splits sum.splits)
qed simp_all

lemma run_ops_terminates:
  "all_inv c \<Longrightarrow> 0 < l1Capacity c \<Longrightarrow> 0 < l2Capacity c \<Longrightarrow> run_ops c ops \<noteq> None"
proof (induction ops arbitrary: c)
  case Nil
  then show ?case by simp
next
  case (Cons op ops)
  from apply_op_terminates [OF Cons.prems] obtain x where x: "apply_op c op = Some x" by auto
  from apply_op_inv [OF Cons.prems(1) x] obtain c1 where
    x1: "x = Inr c1" and i1: "all_inv c1"
    and caps: "l1Capacity c1 = l1Capacity c" "l2Capacity c1 = l2Capacity c" by blast
  have "run_ops c1 ops \<noteq> None" using Cons.IH [OF i1] Cons.prems caps by simp
  then show ?case using x x1 by simp
qed

text \<open>Unfolding rules for running the cache on a concrete input.\<close>

lemmas cache_eval = NewHierarchicalCache_def GetOrCreate_def addToL1_def addToL1_loop.simps
  demoteFromL1_def addToL2_def addToL2_loop.simps evictFromL2_def promoteToL1_def
  zeroStats_def Let_def heap_upd_def newSession_def AddMessage_def

lemma foldl_snoc_ids: "foldl (\<lambda>acc chatID. acc @ [chatID]) acc ks = acc @ ks"
  by (induction ks arbitrary: acc) simp_all

section \<open>Claims about the cache\<close>

text \<open>
  C3, as stated: a cache with L1 capacity \<open>cap1 \<le> 0\<close> is rejected at construction
  with a CapacityInvalid error, and no cache with a non-positive hot-tier capacity is
  handed out. The constructor has no error result and no check: asked for capacity 0
  it returns an empty cache whose \<open>l1Capacity\<close> is 0.
\<close>

theorem C3_counterexample:
  "l1Capacity (NewHierarchicalCache ''server-a'' 0 20) = 0 \<and>
   l1List (NewHierarchicalCache ''server-a'' 0 20) = []"
  by (simp add: NewHierarchicalCache_def)

text \<open>
  C3, amended: \<^verbatim>\<open>NewHierarchicalCache\<close> validates nothing. For every \<open>cap1\<close> and
  \<open>cap2\<close>, also non-positive ones, it returns an empty cache with zeroed counters
  that stores both capacities as given, and \<^verbatim>\<open>GetCacheInfo\<close> reports both back.
\<close>

theorem NewHierarchicalCache_any_capacity:
  "l1Capacity (NewHierarchicalCache sid cap1 cap2) = cap1 \<and>
   l2Capacity (NewHierarchicalCache sid cap1 cap2) = cap2 \<and>
   l1List (NewHierarchicalCache sid cap1 cap2) = [] \<and>
   l2List (NewHierarchicalCache sid cap1 cap2) = [] \<and>
   l1Cache (NewHierarchicalCache sid cap1 cap2) = Map.empty \<and>
   l2Cache (NewHierarchicalCache sid cap1 cap2) = Map.empty \<and>
   stats (NewHierarchicalCache sid cap1 cap2) = zeroStats \<and>
   L1Capacity (GetCacheInfo (NewHierarchicalCache sid cap1 cap2) [] []) = cap1 \<and>
   L2Capacity (GetCacheInfo (NewHierarchicalCache sid cap1 cap2) [] []) = cap2"
  by (simp add: NewHierarchicalCache_def GetCacheInfo_def)

text \<open>
  C4: for a cache constructed with \<open>cap1 \<ge> 1\<close> and \<open>cap2 \<ge> 0\<close>, the state after
  any sequence of public operations (GetOrCreate, AddMessage, GetSession, Clear) has
  at most \<open>cap1\<close> keys in the L1 map, at most \<open>cap2\<close> keys in the L2 map, and no key in
  both maps. A sequence that returns never panics.
\<close>

theorem tier_bounds_and_disjointness:
  assumes "1 \<le> cap1" and "0 \<le> cap2"
    and "run_ops (NewHierarchicalCache sid cap1 cap2) ops = Some r"
  shows "\<exists>c. r = Inr c \<and>
           int (card (dom (l1Cache c))) \<le> cap1 \<and>
           int (card (dom (l2Cache c))) \<le> cap2 \<and>
           dom (l1Cache c) \<inter> dom (l2Cache c) = {}"
proof -
  from run_ops_inv [OF all_inv_New assms(3)] obtain c where
    r: "r = Inr c" and inv: "all_inv c"
    and caps: "l1Capacity c = cap1" "l2Capacity c = cap2"
    by (auto simp: NewHierarchicalCache_def)
  from inv have ok1: "tier_ok (l1Cache c) (l1List c) (l1Capacity c)"
    and ok2: "tier_ok (l2Cache c) (l2List c) (l2Capacity c)"
    and dj: "set (l1List c) \<inter> set (l2List c) = {}" by (simp_all add: all_inv_def cache_inv_def)
  have "int (card (dom (l1Cache c))) \<le> cap1"
    using ok1 assms(1) caps by (simp add: tier_ok_len [OF ok1]) (simp add: tier_ok_def)
  moreover have "int (card (dom (l2Cache c))) \<le> cap2"
    using ok2 assms(2) caps by (simp add: tier_ok_len [OF ok2]) (simp add: tier_ok_def)
  moreover have "dom (l1Cache c) \<inter> dom (l2Cache c) = {}"
    using ok1 ok2 dj by (simp add: tier_ok_def)
  ultimately show ?thesis using r by blast
qed

theorem tier_bounds_and_disjointness_witness:
  "\<exists>c. run_ops (NewHierarchicalCache ''test'' 2 3)
          [OpGetOrCreate ''a'' (\<lambda>_. 0), OpGetOrCreate ''b'' (\<lambda>_. 0),
           OpAddMessage ''c'' \<lparr>Content = ''hi'', SenderID = ''u'', Timestamp = 0\<rparr> (\<lambda>_. 0)] = Some (Inr c) \<and>
       int (card (dom (l1Cache c))) \<le> 2 \<and>
       int (card (dom (l2Cache c))) \<le> 3 \<and>
       dom (l1Cache c) \<inter> dom (l2Cache c) = {}"
proof -
  let ?ops = "[OpGetOrCreate ''a'' (\<lambda>_. 0), OpGetOrCreate ''b'' (\<lambda>_. 0),
           OpAddMessage ''c'' \<lparr>Content = ''hi'', SenderID = ''u'', Timestamp = 0\<rparr> (\<lambda>_. 0)]"
  have "run_ops (NewHierarchicalCache ''test'' 2 3) ?ops \<noteq> None"
    by (simp add: cache_eval)
  then obtain r where r: "run_ops (NewHierarchicalCache ''test'' 2 3) ?ops = Some r" by auto
  have h1: "(1::int) \<le> 2" and h2: "(0::int) \<le> 3" by simp_all
  from tier_bounds_and_disjointness [OF h1 h2 r] show ?thesis using r by auto
qed

text \<open>
  C5: in a state reached by public operations on a cache with \<open>cap1 \<ge> 1\<close>, a
  \<^verbatim>\<open>GetOrCreate\<close> that finds the id in L2 returns, reports the level L2, and leaves the
  evictions counter as it was; the demotions counter stays or goes up by one.
\<close>

theorem promotion_never_evicts:
  assumes "1 \<le> cap1"
    and "run_ops (NewHierarchicalCache sid cap1 cap2) ops = Some (Inr c)"
    and "l1Cache c k = None" and "l2Cache c k = Some p"
  shows "\<exists>c'. GetOrCreate c k clk = Some (Inr (c', p, LevelL2)) \<and>
           Evictions (stats c') = Evictions (stats c) \<and>
           (Demotions (stats c') = Demotions (stats c) \<or>
            Demotions (stats c') = Demotions (stats c) + 1)"
proof -
  from run_ops_inv [OF all_inv_New assms(2)] have inv: "all_inv c"
    and caps: "l1Capacity c = cap1"
    by (auto simp: NewHierarchicalCache_def)
  note L2 = GetOrCreate_L2 [OF inv assms(3) assms(4), of clk]
  have "GetOrCreate c k clk \<noteq> None" using L2 caps assms(1) by auto
  then obtain r where r: "GetOrCreate c k clk = Some r" by auto
  with L2 obtain c' where "r = Inr (c', p, LevelL2)" and "GetOrCreate_post c k clk c' p LevelL2"
    by blast
  then show ?thesis using r by (auto simp: GetOrCreate_post_def)
qed

theorem promotion_never_evicts_witness:
  "\<exists>c c'. run_ops (NewHierarchicalCache ''test'' 2 3)
          [OpGetOrCreate ''a'' (\<lambda>_. 0), OpGetOrCreate ''b'' (\<lambda>_. 0),
           OpGetOrCreate ''c'' (\<lambda>_. 0)] = Some (Inr c) \<and>
       l1Cache c ''a'' = None \<and> l2Cache c ''a'' = Some 0 \<and>
       GetOrCreate c ''a'' (\<lambda>_. 1) = Some (Inr (c', 0, LevelL2)) \<and>
       Evictions (stats c') = Evictions (stats c) \<and>
       (Demotions (stats c') = Demotions (stats c) \<or>
        Demotions (stats c') = Demotions (stats c) + 1)"
proof -
  let ?ops = "[OpGetOrCreate ''a'' (\<lambda>_. 0), OpGetOrCreate ''b'' (\<lambda>_. 0),
           OpGetOrCreate ''c'' (\<lambda>_. 0)]"
  have "\<exists>c. run_ops (NewHierarchicalCache ''test'' 2 3) ?ops = Some (Inr c) \<and>
          l1Cache c ''a'' = None \<and> l2Cache c ''a'' = Some 0"
    by (simp add: cache_eval)
  then obtain c where r: "run_ops (NewHierarchicalCache ''test'' 2 3) ?ops = Some (Inr c)"
    and n1: "l1Cache c ''a'' = None" and h2: "l2Cache c ''a'' = Some 0" by blast
  have h1: "(1::int) \<le> 2" by simp
  from promotion_never_evicts [OF h1 r n1 h2, of "\<lambda>_. 1"] show ?thesis using r n1 h2 by blast
qed

lemma run_ops_append:
  "run_ops c (xs @ ys) =
     (case run_ops c xs of None \<Rightarrow> None | Some (Inl e) \<Rightarrow> Some (Inl e)
      | Some (Inr c') \<Rightarrow> run_ops c' ys)"
  by (induction xs arbitrary: c) (auto split: option.splits sum.splits)

text \<open>
  C6: after any sequence of public operations on a fresh cache the counters satisfy
  \<open>CacheHits = L1Hits + L2Hits\<close> and \<open>TotalRequests = CacheHits + CacheMisses\<close>
  (as \<^verbatim>\<open>int64\<close> values), and one \<^verbatim>\<open>AddMessage\<close> from such a state adds exactly one
  to \<open>TotalRequests\<close>.
\<close>

theorem counters_consistent:
  assumes "run_ops (NewHierarchicalCache sid cap1 cap2) ops = Some r"
  shows "\<exists>c. r = Inr c \<and>
           CacheHits (stats c) = L1Hits (stats c) + L2Hits (stats c) \<and>
           TotalRequests (stats c) = CacheHits (stats c) + CacheMisses (stats c) \<and>
           (\<forall>k msg clk r'. AddMessage c k msg clk = Some r' \<longrightarrow>
              (\<exists>c' p lvl. r' = Inr (c', p, lvl) \<and>
                 TotalRequests (stats c') = TotalRequests (stats c) + 1))"
proof -
  from run_ops_inv [OF all_inv_New assms] obtain c where
    r: "r = Inr c" and inv: "all_inv c" by blast
  from inv have "stats_inv (stats c)" by (simp add: all_inv_def)
  then have s: "CacheHits (stats c) = L1Hits (stats c) + L2Hits (stats c)"
    "TotalRequests (stats c) = CacheHits (stats c) + CacheMisses (stats c)"
    by (simp_all add: stats_inv_def)
  have "\<forall>k msg clk r'. AddMessage c k msg clk = Some r' \<longrightarrow>
              (\<exists>c' p lvl. r' = Inr (c', p, lvl) \<and>
                 TotalRequests (stats c') = TotalRequests (stats c) + 1)"
    using AddMessage_inv [OF inv] by blast
  then show ?thesis using r s by blast
qed

theorem counters_consistent_witness:
  "\<exists>c c' p lvl. run_ops (NewHierarchicalCache ''test'' 2 3)
          [OpGetOrCreate ''a'' clock0, OpGetOrCreate ''b'' clock0] = Some (Inr c) \<and>
       CacheHits (stats c) = L1Hits (stats c) + L2Hits (stats c) \<and>
       TotalRequests (stats c) = CacheHits (stats c) + CacheMisses (stats c) \<and>
       AddMessage c ''a'' \<lparr>Content = ''hi'', SenderID = ''u'', Timestamp = 0\<rparr> clock0 =
         Some (Inr (c', p, lvl)) \<and>
       TotalRequests (stats c') = TotalRequests (stats c) + 1"
proof -
  let ?ops = "[OpGetOrCreate ''a'' clock0, OpGetOrCreate ''b'' clock0]"
  let ?m = "\<lparr>Content = ''hi'', SenderID = ''u'', Timestamp = 0\<rparr>"
  have r: "run_ops (NewHierarchicalCache ''test'' 2 3) ?ops = Some (Inr cache_ab)"
    by (simp add: cache_eval cache_ab_def)
  have "AddMessage cache_ab ''a'' ?m clock0 \<noteq> None"
    by (simp add: cache_eval cache_ab_def)
  then obtain r' where a: "AddMessage cache_ab ''a'' ?m clock0 = Some r'" by auto
  from counters_consistent [OF r] a show ?thesis using r by blast
qed


lemma GetOrCreate_post_ptr:
  "GetOrCreate_post c k clk c' p lvl \<Longrightarrow> p < length (heap c')"
  unfolding GetOrCreate_post_def by (elim conjE)

lemma GetOrCreate_post_miss:
  "GetOrCreate_post c k clk c' p LevelMiss \<Longrightarrow>
   p = length (heap c) \<and> heap c' = heap c @ [newSession k clk]"
  unfolding GetOrCreate_post_def by (elim conjE) simp

lemma heap_upd_nth: "p < length h \<Longrightarrow> heap_upd p f h ! p = f (h ! p)"
  by (simp add: heap_upd_def)

text \<open>
  C8: after any sequence of public operations on a fresh cache, every session object
  the cache has allocated (those still cached, and those evicted but possibly still
  held by a caller) has \<open>MessageCount\<close> equal to the length of \<open>Messages\<close>; a
  session created by a miss has count 0 and no messages; \<^verbatim>\<open>AddMessage\<close> appends
  exactly its message to the session \<^verbatim>\<open>GetOrCreate\<close> returns and adds one to its count.
\<close>

theorem message_count_matches_length:
  assumes "run_ops (NewHierarchicalCache sid cap1 cap2) ops = Some r"
  shows "\<exists>c. r = Inr c \<and>
           (\<forall>s \<in> set (heap c). MessageCount s = int (length (Messages s))) \<and>
           (\<forall>k clk c' p. GetOrCreate c k clk = Some (Inr (c', p, LevelMiss)) \<longrightarrow>
              p < length (heap c') \<and> MessageCount (heap c' ! p) = 0 \<and>
              Messages (heap c' ! p) = []) \<and>
           (\<forall>k msg clk c1 p lvl. GetOrCreate c k clk = Some (Inr (c1, p, lvl)) \<longrightarrow>
              (\<exists>c'. AddMessage c k msg clk = Some (Inr (c', p, lvl)) \<and>
                 p < length (heap c') \<and>
                 Messages (heap c' ! p) = Messages (heap c1 ! p) @ [msg] \<and>
                 MessageCount (heap c' ! p) = MessageCount (heap c1 ! p) + 1))"
proof -
  from run_ops_inv [OF all_inv_New assms] obtain c where
    r: "r = Inr c" and inv: "all_inv c" by blast
  from inv have A: "\<forall>s \<in> set (heap c). MessageCount s = int (length (Messages s))"
    by (simp add: all_inv_def heap_inv_def)
  have B: "\<forall>k clk c' p. GetOrCreate c k clk = Some (Inr (c', p, LevelMiss)) \<longrightarrow>
              p < length (heap c') \<and> MessageCount (heap c' ! p) = 0 \<and>
              Messages (heap c' ! p) = []"
  proof (intro allI impI)
    fix k clk c' p assume g: "GetOrCreate c k clk = Some (Inr (c', p, LevelMiss))"
    from GetOrCreate_inv [OF inv g] have post: "GetOrCreate_post c k clk c' p LevelMiss" by simp
    then have "p = length (heap c)" and "heap c' = heap c @ [newSession k clk]"
      using GetOrCreate_post_miss by blast+
    then show "p < length (heap c') \<and> MessageCount (heap c' ! p) = 0 \<and>
              Messages (heap c' ! p) = []" by (simp add: newSession_def)
  qed
  have C: "\<forall>k msg clk c1 p lvl. GetOrCreate c k clk = Some (Inr (c1, p, lvl)) \<longrightarrow>
              (\<exists>c'. AddMessage c k msg clk = Some (Inr (c', p, lvl)) \<and>
                 p < length (heap c') \<and>
                 Messages (heap c' ! p) = Messages (heap c1 ! p) @ [msg] \<and>
                 MessageCount (heap c' ! p) = MessageCount (heap c1 ! p) + 1)"
  proof (intro allI impI)
    fix k msg clk c1 p lvl assume g: "GetOrCreate c k clk = Some (Inr (c1, p, lvl))"
    from GetOrCreate_inv [OF inv g] have post: "GetOrCreate_post c k clk c1 p lvl" by simp
    then have pl: "p < length (heap c1)" by (rule GetOrCreate_post_ptr)
    show "\<exists>c'. AddMessage c k msg clk = Some (Inr (c', p, lvl)) \<and>
                 p < length (heap c') \<and>
                 Messages (heap c' ! p) = Messages (heap c1 ! p) @ [msg] \<and>
                 MessageCount (heap c' ! p) = MessageCount (heap c1 ! p) + 1"
      using pl by (simp add: AddMessage_unfold [OF g] heap_upd_nth)
  qed
  show ?thesis using r A B C by blast
qed

theorem message_count_matches_length_witness:
  "\<exists>c c1 c' p c2 p2. run_ops (NewHierarchicalCache ''test'' 2 3)
          [OpGetOrCreate ''a'' clock0,
           OpAddMessage ''b'' \<lparr>Content = ''hello'', SenderID = ''u'', Timestamp = 0\<rparr> clock0]
         = Some (Inr c) \<and>
       (\<forall>s \<in> set (heap c). MessageCount s = int (length (Messages s))) \<and>
       GetOrCreate c ''z'' clock0 = Some (Inr (c2, p2, LevelMiss)) \<and>
       MessageCount (heap c2 ! p2) = 0 \<and> Messages (heap c2 ! p2) = [] \<and>
       GetOrCreate c ''b'' clock0 = Some (Inr (c1, p, LevelL1)) \<and>
       AddMessage c ''b'' \<lparr>Content = ''again'', SenderID = ''u'', Timestamp = 1\<rparr> clock0 =
         Some (Inr (c', p, LevelL1)) \<and>
       Messages (heap c' ! p) =
         Messages (heap c1 ! p) @ [\<lparr>Content = ''again'', SenderID = ''u'', Timestamp = 1\<rparr>] \<and>
       MessageCount (heap c' ! p) = MessageCount (heap c1 ! p) + 1"
proof -
  let ?ops = "[OpGetOrCreate ''a'' clock0,
           OpAddMessage ''b'' \<lparr>Content = ''hello'', SenderID = ''u'', Timestamp = 0\<rparr> clock0]"
  have "\<exists>c c1 p c2 p2. run_ops (NewHierarchicalCache ''test'' 2 3) ?ops = Some (Inr c) \<and>
          GetOrCreate c ''b'' clock0 = Some (Inr (c1, p, LevelL1)) \<and>
          GetOrCreate c ''z'' clock0 = Some (Inr (c2, p2, LevelMiss))"
    by (simp add: cache_eval)
  then obtain c c1 p c2 p2 where r: "run_ops (NewHierarchicalCache ''test'' 2 3) ?ops = Some (Inr c)"
    and g: "GetOrCreate c ''b'' clock0 = Some (Inr (c1, p, LevelL1))"
    and z: "GetOrCreate c ''z'' clock0 = Some (Inr (c2, p2, LevelMiss))" by blast
  from message_count_matches_length [OF r] g z show ?thesis using r by blast
qed

text \<open>
  C10, as stated: \<^verbatim>\<open>GetOrCreate\<close> terminates on every input precisely when
  \<open>l1Capacity \<ge> 1\<close>. With \<open>l1Capacity = 1\<close> and \<open>l2Capacity = 0\<close> the first
  \<^verbatim>\<open>GetOrCreate\<close> returns and the second, for another id, never does: the demotion
  enters the loop of \<^verbatim>\<open>addToL2\<close>, which spins on the empty L2.
\<close>

theorem C10_counterexample:
  "1 \<le> l1Capacity (NewHierarchicalCache ''test'' 1 0) \<and>
   run_ops (NewHierarchicalCache ''test'' 1 0) [OpGetOrCreate ''a'' clock0] \<noteq> None \<and>
   run_ops (NewHierarchicalCache ''test'' 1 0)
     [OpGetOrCreate ''a'' clock0, OpGetOrCreate ''b'' clock0] = None"
proof -
  have "\<exists>c. run_ops (NewHierarchicalCache ''test'' 1 0) [OpGetOrCreate ''a'' clock0] = Some (Inr c) \<and>
          l1Cache c ''b'' = None \<and> l2Cache c ''b'' = None \<and> l1Capacity c = 1 \<and>
          l2Capacity c = 0 \<and> length (l1List c) = 1"
    by (simp add: cache_eval)
  then obtain c where r: "run_ops (NewHierarchicalCache ''test'' 1 0) [OpGetOrCreate ''a'' clock0] = Some (Inr c)"
    and f: "l1Cache c ''b'' = None" "l2Cache c ''b'' = None" "l1Capacity c = 1"
      "l2Capacity c = 0" "length (l1List c) = 1" by blast
  from run_ops_inv [OF all_inv_New r] have inv: "all_inv c" by simp
  have "GetOrCreate c ''b'' clock0 = None"
    using GetOrCreate_Miss [OF inv f(1) f(2), of clock0] f by simp
  then have "run_ops c [OpGetOrCreate ''b'' clock0] = None" by simp
  then have "run_ops (NewHierarchicalCache ''test'' 1 0)
     ([OpGetOrCreate ''a'' clock0] @ [OpGetOrCreate ''b'' clock0]) = None"
    using r by (simp only: run_ops_append) simp
  then show ?thesis using r by (simp add: NewHierarchicalCache_def)
qed

text \<open>
  C10, amended: with \<open>l1Capacity \<ge> 1\<close> and \<open>l2Capacity \<ge> 1\<close> every sequence of
  public operations returns, and \<^verbatim>\<open>GetOrCreate\<close> and \<^verbatim>\<open>AddMessage\<close> return from
  every state so reached. With \<open>l1Capacity \<le> 0\<close> (which the constructor accepts) no
  \<^verbatim>\<open>GetOrCreate\<close> or \<^verbatim>\<open>AddMessage\<close> ever returns. With \<open>l1Capacity \<ge> 1\<close> and
  \<open>l2Capacity \<le> 0\<close>, a \<^verbatim>\<open>GetOrCreate\<close> or \<^verbatim>\<open>AddMessage\<close> for an id outside L1 on a
  state whose L1 is full never returns.
\<close>

theorem GetOrCreate_termination:
  "(1 \<le> cap1 \<and> 1 \<le> cap2 \<longrightarrow>
      (\<exists>c. run_ops (NewHierarchicalCache sid cap1 cap2) ops = Some (Inr c) \<and>
           (\<forall>k clk. GetOrCreate c k clk \<noteq> None) \<and>
           (\<forall>k msg clk. AddMessage c k msg clk \<noteq> None))) \<and>
   (cap1 \<le> 0 \<longrightarrow>
      (\<forall>c. run_ops (NewHierarchicalCache sid cap1 cap2) ops = Some (Inr c) \<longrightarrow>
           (\<forall>k clk. GetOrCreate c k clk = None) \<and>
           (\<forall>k msg clk. AddMessage c k msg clk = None))) \<and>
   (1 \<le> cap1 \<and> cap2 \<le> 0 \<longrightarrow>
      (\<forall>c k. run_ops (NewHierarchicalCache sid cap1 cap2) ops = Some (Inr c) \<and>
             int (length (l1List c)) = cap1 \<and> l1Cache c k = None \<longrightarrow>
           (\<forall>clk. GetOrCreate c k clk = None) \<and>
           (\<forall>msg clk. AddMessage c k msg clk = None)))"
proof (intro conjI impI allI)
  assume caps: "1 \<le> cap1 \<and> 1 \<le> cap2"
  let ?c0 = "NewHierarchicalCache sid cap1 cap2"
  have c0: "0 < l1Capacity ?c0" "0 < l2Capacity ?c0"
    using caps by (simp_all add: NewHierarchicalCache_def)
  from run_ops_terminates [OF all_inv_New c0, of ops] obtain r where
    r: "run_ops ?c0 ops = Some r" by auto
  from run_ops_inv [OF all_inv_New r] obtain c where rc: "r = Inr c" and inv: "all_inv c"
    and cc: "l1Capacity c = l1Capacity ?c0" "l2Capacity c = l2Capacity ?c0" by blast
  have p: "0 < l1Capacity c" "0 < l2Capacity c" using c0 cc by simp_all
  have "\<forall>k clk. GetOrCreate c k clk \<noteq> None" using GetOrCreate_terminates [OF inv p] by blast
  then show "\<exists>c. run_ops ?c0 ops = Some (Inr c) \<and>
           (\<forall>k clk. GetOrCreate c k clk \<noteq> None) \<and>
           (\<forall>k msg clk. AddMessage c k msg clk \<noteq> None)"
    using r rc by (auto simp: AddMessage_None)
next
  fix c k clk
  assume cap: "cap1 \<le> 0" and r: "run_ops (NewHierarchicalCache sid cap1 cap2) ops = Some (Inr c)"
  from run_ops_inv [OF all_inv_New r] have inv: "all_inv c" and cc: "l1Capacity c = cap1"
    by (simp_all add: NewHierarchicalCache_def)
  from inv have ok1: "tier_ok (l1Cache c) (l1List c) (l1Capacity c)"
    by (simp add: all_inv_def cache_inv_def)
  then have "l1List c = []" using cap cc by (simp add: tier_ok_def)
  then have "dom (l1Cache c) = {}" using ok1 by (simp add: tier_ok_def)
  then have n1: "l1Cache c k = None" by auto
  show "GetOrCreate c k clk = None"
  proof (cases "l2Cache c k")
    case None
    then show ?thesis using GetOrCreate_Miss [OF inv n1 None, of clk] cap cc by simp
  next
    case (Some p)
    then show ?thesis using GetOrCreate_L2 [OF inv n1 Some, of clk] cap cc by simp
  qed
next
  fix c k msg clk
  assume cap: "cap1 \<le> 0" and r: "run_ops (NewHierarchicalCache sid cap1 cap2) ops = Some (Inr c)"
  from run_ops_inv [OF all_inv_New r] have inv: "all_inv c" and cc: "l1Capacity c = cap1"
    by (simp_all add: NewHierarchicalCache_def)
  from inv have ok1: "tier_ok (l1Cache c) (l1List c) (l1Capacity c)"
    by (simp add: all_inv_def cache_inv_def)
  then have "l1List c = []" using cap cc by (simp add: tier_ok_def)
  then have "dom (l1Cache c) = {}" using ok1 by (simp add: tier_ok_def)
  then have n1: "l1Cache c k = None" by auto
  have "GetOrCreate c k clk = None"
  proof (cases "l2Cache c k")
    case None
    then show ?thesis using GetOrCreate_Miss [OF inv n1 None, of clk] cap cc by simp
  next
    case (Some p)
    then show ?thesis using GetOrCreate_L2 [OF inv n1 Some, of clk] cap cc by simp
  qed
  then show "AddMessage c k msg clk = None" by (simp add: AddMessage_None)
next
  fix c k clk
  assume caps: "1 \<le> cap1 \<and> cap2 \<le> 0"
    and h: "run_ops (NewHierarchicalCache sid cap1 cap2) ops = Some (Inr c) \<and>
             int (length (l1List c)) = cap1 \<and> l1Cache c k = None"
  from h have r: "run_ops (NewHierarchicalCache sid cap1 cap2) ops = Some (Inr c)" by simp
  from run_ops_inv [OF all_inv_New r] have inv: "all_inv c" and cc: "l1Capacity c = cap1"
    "l2Capacity c = cap2" by (simp_all add: NewHierarchicalCache_def)
  from inv have ok2: "tier_ok (l2Cache c) (l2List c) (l2Capacity c)"
    by (simp add: all_inv_def cache_inv_def)
  then have "l2List c = []" using caps cc by (simp add: tier_ok_def)
  then have "dom (l2Cache c) = {}" using ok2 by (simp add: tier_ok_def)
  then have n2: "l2Cache c k = None" by auto
  from h have n1: "l1Cache c k = None" by simp
  show "GetOrCreate c k clk = None"
    using GetOrCreate_Miss [OF inv n1 n2, of clk] caps cc h by simp
next
  fix c k msg clk
  assume caps: "1 \<le> cap1 \<and> cap2 \<le> 0"
    and h: "run_ops (NewHierarchicalCache sid cap1 cap2) ops = Some (Inr c) \<and>
             int (length (l1List c)) = cap1 \<and> l1Cache c k = None"
  from h have r: "run_ops (NewHierarchicalCache sid cap1 cap2) ops = Some (Inr c)" by simp
  from run_ops_inv [OF all_inv_New r] have inv: "all_inv c" and cc: "l1Capacity c = cap1"
    "l2Capacity c = cap2" by (simp_all add: NewHierarchicalCache_def)
  from inv have ok2: "tier_ok (l2Cache c) (l2List c) (l2Capacity c)"
    by (simp add: all_inv_def cache_inv_def)
  then have "l2List c = []" using caps cc by (simp add: tier_ok_def)
  then have "dom (l2Cache c) = {}" using ok2 by (simp add: tier_ok_def)
  then have n2: "l2Cache c k = None" by auto
  from h have n1: "l1Cache c k = None" by simp
  have "GetOrCreate c k clk = None"
    using GetOrCreate_Miss [OF inv n1 n2, of clk] caps cc h by simp
  then show "AddMessage c k msg clk = None" by (simp add: AddMessage_None)
qed


theorem GetOrCreate_termination_witness:
  "(\<exists>c. run_ops (NewHierarchicalCache ''test'' 2 3)
          [OpGetOrCreate ''a'' clock0, OpGetOrCreate ''b'' clock0] = Some (Inr c) \<and>
        GetOrCreate c ''c'' clock0 \<noteq> None) \<and>
   run_ops (NewHierarchicalCache ''test'' 0 3) [OpClear] =
     Some (Inr (Clear (NewHierarchicalCache ''test'' 0 3))) \<and>
   GetOrCreate (Clear (NewHierarchicalCache ''test'' 0 3)) ''a'' clock0 = None \<and>
   (\<exists>c. run_ops (NewHierarchicalCache ''test'' 1 0) [OpGetOrCreate ''a'' clock0] = Some (Inr c) \<and>
        int (length (l1List c)) = 1 \<and> l1Cache c ''b'' = None \<and>
        GetOrCreate c ''b'' clock0 = None)"
proof -
  have h1: "(1::int) \<le> 2 \<and> (1::int) \<le> 3" by simp
  have A: "\<exists>c. run_ops (NewHierarchicalCache ''test'' 2 3)
          [OpGetOrCreate ''a'' clock0, OpGetOrCreate ''b'' clock0] = Some (Inr c) \<and>
        GetOrCreate c ''c'' clock0 \<noteq> None"
    using GetOrCreate_termination [of 2 3 "''test''"
        "[OpGetOrCreate ''a'' clock0, OpGetOrCreate ''b'' clock0]"] h1 by blast
  have r0: "run_ops (NewHierarchicalCache ''test'' 0 3) [OpClear] =
     Some (Inr (Clear (NewHierarchicalCache ''test'' 0 3)))" by simp
  have h0: "(0::int) \<le> 0" by simp
  have B: "GetOrCreate (Clear (NewHierarchicalCache ''test'' 0 3)) ''a'' clock0 = None"
    using GetOrCreate_termination [of 0 3 "''test''" "[OpClear]"] h0 r0 by blast
  have "\<exists>c. run_ops (NewHierarchicalCache ''test'' 1 0) [OpGetOrCreate ''a'' clock0] = Some (Inr c) \<and>
          int (length (l1List c)) = 1 \<and> l1Cache c ''b'' = None"
    by (simp add: cache_eval)
  then obtain c where r: "run_ops (NewHierarchicalCache ''test'' 1 0) [OpGetOrCreate ''a'' clock0] = Some (Inr c)"
    and f: "int (length (l1List c)) = 1" "l1Cache c ''b'' = None" by blast
  have h3: "(1::int) \<le> 1 \<and> (0::int) \<le> 0" by simp
  have "GetOrCreate c ''b'' clock0 = None"
    using GetOrCreate_termination [of 1 0 "''test''" "[OpGetOrCreate ''a'' clock0]"] h3 r f by blast
  then have C: "\<exists>c. run_ops (NewHierarchicalCache ''test'' 1 0) [OpGetOrCreate ''a'' clock0] = Some (Inr c) \<and>
        int (length (l1List c)) = 1 \<and> l1Cache c ''b'' = None \<and>
        GetOrCreate c ''b'' clock0 = None" using r f by blast
  show ?thesis using A r0 B C by blast
qed

text \<open>
  C1, as stated: the id lists of \<^verbatim>\<open>GetCacheInfo\<close> are in recency order, equal to the
  LRU lists. After \<^verbatim>\<open>GetOrCreate("a"); GetOrCreate("b")\<close> the L1 list is \<open>[b, a]\<close>;
  a range over the L1 map that yields \<open>a\<close> before \<open>b\<close>, which Go permits, makes
  \<^verbatim>\<open>GetCacheInfo\<close> return \<open>[a, b]\<close>.
\<close>

theorem C1_counterexample:
  "run_ops (NewHierarchicalCache ''test'' 2 3)
     [OpGetOrCreate ''a'' clock0, OpGetOrCreate ''b'' clock0] = Some (Inr cache_ab) \<and>
   map_range (l1Cache cache_ab) [''a'', ''b''] \<and>
   map_range (l2Cache cache_ab) [] \<and>
   L1Chats (GetCacheInfo cache_ab [''a'', ''b''] []) = [''a'', ''b''] \<and>
   l1List cache_ab = [''b'', ''a''] \<and>
   L1Chats (GetCacheInfo cache_ab [''a'', ''b''] []) \<noteq> l1List cache_ab"
proof -
  have r: "run_ops (NewHierarchicalCache ''test'' 2 3)
     [OpGetOrCreate ''a'' clock0, OpGetOrCreate ''b'' clock0] = Some (Inr cache_ab)"
    by (simp add: cache_eval cache_ab_def)
  have m1: "map_range (l1Cache cache_ab) [''a'', ''b'']"
    by (auto simp: map_range_def cache_ab_def)
  have m2: "map_range (l2Cache cache_ab) []"
    by (simp add: map_range_def cache_ab_def)
  have g: "L1Chats (GetCacheInfo cache_ab [''a'', ''b''] []) = [''a'', ''b'']"
    by (simp add: GetCacheInfo_def)
  have l: "l1List cache_ab = [''b'', ''a'']" by (simp add: cache_ab_def)
  show ?thesis using r m1 m2 g l by simp
qed

text \<open>
  C1, amended: in every state reached by public operations, the id lists returned by
  \<^verbatim>\<open>GetCacheInfo\<close> are the keys of each tier's map in the order the map range yields
  them; they hold exactly the ids of the tier's LRU list, each once, and the reported
  sizes are the lengths of the LRU lists. The order is that of the map range, not the
  recency order.
\<close>

theorem GetCacheInfo_lists_tier_ids:
  assumes "run_ops (NewHierarchicalCache sid cap1 cap2) ops = Some (Inr c)"
    and "map_range (l1Cache c) ks1" and "map_range (l2Cache c) ks2"
  shows "L1Chats (GetCacheInfo c ks1 ks2) = ks1 \<and> L2Chats (GetCacheInfo c ks1 ks2) = ks2 \<and>
         mset (L1Chats (GetCacheInfo c ks1 ks2)) = mset (l1List c) \<and>
         mset (L2Chats (GetCacheInfo c ks1 ks2)) = mset (l2List c) \<and>
         L1Size (GetCacheInfo c ks1 ks2) = length (l1List c) \<and>
         L2Size (GetCacheInfo c ks1 ks2) = length (l2List c)"
proof -
  from run_ops_inv [OF all_inv_New assms(1)] have inv: "all_inv c" by simp
  then have ok1: "tier_ok (l1Cache c) (l1List c) (l1Capacity c)"
    and ok2: "tier_ok (l2Cache c) (l2List c) (l2Capacity c)"
    by (simp_all add: all_inv_def cache_inv_def)
  have e1: "L1Chats (GetCacheInfo c ks1 ks2) = ks1" and e2: "L2Chats (GetCacheInfo c ks1 ks2) = ks2"
    by (simp_all add: GetCacheInfo_def foldl_snoc_ids)
  have "distinct ks1" "set ks1 = set (l1List c)" "distinct (l1List c)"
    using assms(2) ok1 by (simp_all add: map_range_def tier_ok_def)
  then have m1: "mset ks1 = mset (l1List c)" by (simp add: set_eq_iff_mset_eq_distinct)
  have "distinct ks2" "set ks2 = set (l2List c)" "distinct (l2List c)"
    using assms(3) ok2 by (simp_all add: map_range_def tier_ok_def)
  then have m2: "mset ks2 = mset (l2List c)" by (simp add: set_eq_iff_mset_eq_distinct)
  have s1: "L1Size (GetCacheInfo c ks1 ks2) = length (l1List c)"
    by (simp add: GetCacheInfo_def tier_ok_len [OF ok1])
  have s2: "L2Size (GetCacheInfo c ks1 ks2) = length (l2List c)"
    by (simp add: GetCacheInfo_def tier_ok_len [OF ok2])
  show ?thesis using e1 e2 m1 m2 s1 s2 by simp
qed

theorem GetCacheInfo_lists_tier_ids_witness:
  "map_range (l1Cache cache_ab) [''a'', ''b''] \<and> map_range (l2Cache cache_ab) [] \<and>
   mset (L1Chats (GetCacheInfo cache_ab [''a'', ''b''] [])) = mset (l1List cache_ab) \<and>
   mset (L2Chats (GetCacheInfo cache_ab [''a'', ''b''] [])) = mset (l2List cache_ab) \<and>
   L1Size (GetCacheInfo cache_ab [''a'', ''b''] []) = length (l1List cache_ab)"
proof -
  have r: "run_ops (NewHierarchicalCache ''test'' 2 3)
     [OpGetOrCreate ''a'' clock0, OpGetOrCreate ''b'' clock0] = Some (Inr cache_ab)"
    by (simp add: cache_eval cache_ab_def)
  have m1: "map_range (l1Cache cache_ab) [''a'', ''b'']"
    by (auto simp: map_range_def cache_ab_def)
  have m2: "map_range (l2Cache cache_ab) []"
    by (simp add: map_range_def cache_ab_def)
  from GetCacheInfo_lists_tier_ids [OF r m1 m2] show ?thesis using m1 m2 by blast
qed

section \<open>Lemmas and claims about the ring\<close>
















text \<open>
  C9: for every ring state, \<^verbatim>\<open>AddNode\<close> of an id that is present changes nothing,
  whatever weight and address are passed, so a second \<^verbatim>\<open>AddNode\<close> of the same id
  leaves the ring as the first one made it; \<^verbatim>\<open>RemoveNode\<close> of an absent id changes
  nothing, so a second \<^verbatim>\<open>RemoveNode\<close> of the same id is a no-op.
\<close>

theorem ring_mutations_idempotent:
  "(nodeCapacity hr nodeID \<noteq> None \<longrightarrow> AddNode H srt hr nodeID w' a' = hr) \<and>
   AddNode H srt (AddNode H srt hr nodeID w a) nodeID w' a' = AddNode H srt hr nodeID w a \<and>
   (nodeCapacity hr nodeID = None \<longrightarrow> RemoveNode hr nodeID = hr) \<and>
   RemoveNode (RemoveNode hr nodeID) nodeID = RemoveNode hr nodeID"
  by (simp add: AddNode_def RemoveNode_def Let_def)

theorem ring_mutations_idempotent_witness:
  "nodeCapacity (AddNode length_hash (sort_key Hash) (NewHashRing 2) ''a'' 1 ''addr-a'') ''a'' \<noteq> None \<and>
   AddNode length_hash (sort_key Hash)
     (AddNode length_hash (sort_key Hash) (NewHashRing 2) ''a'' 1 ''addr-a'') ''a'' 5 ''elsewhere'' =
   AddNode length_hash (sort_key Hash) (NewHashRing 2) ''a'' 1 ''addr-a'' \<and>
   nodeCapacity (NewHashRing 2) ''b'' = None \<and>
   RemoveNode (NewHashRing 2) ''b'' = NewHashRing 2"
proof -
  have 1: "nodeCapacity (AddNode length_hash (sort_key Hash) (NewHashRing 2) ''a'' 1 ''addr-a'') ''a'' \<noteq> None"
    by (simp add: AddNode_def NewHashRing_def Let_def)
  have 2: "nodeCapacity (NewHashRing 2) ''b'' = None" by (simp add: NewHashRing_def)
  from ring_mutations_idempotent [of "AddNode length_hash (sort_key Hash) (NewHashRing 2) ''a'' 1 ''addr-a''"
      "''a''" length_hash "sort_key Hash" 5 "''elsewhere''" 1 "''addr-a''"]
    ring_mutations_idempotent [of "NewHashRing 2" "''b''" length_hash "sort_key Hash" 0 "''x''" 0 "''x''"]
    1 2
  show ?thesis by blast
qed

section \<open>Lemmas and claims about the client\<close>

lemma marked_down_sendToServer:
  assumes "marked_down c a" and "sendToServer dial post c addr req = (c1, res)"
  shows "marked_down c1 a"
  using assms
  by (auto simp: marked_down_def sendToServer_def connectToServer_def Let_def
      split: option.splits if_splits sum.splits)

lemma marked_down_mark_other:
  "marked_down c a \<Longrightarrow> marked_down (markConnectionUnhealthy c addr) a"
  by (auto simp: marked_down_def markConnectionUnhealthy_def split: option.splits if_splits)

lemma marked_down_mark_self: "marked_down (markConnectionUnhealthy c a) a"
  by (auto simp: marked_down_def markConnectionUnhealthy_def split: option.splits)

lemma marked_down_loop:
  "marked_down c a \<Longrightarrow> SendMessage_loop dial post c req ns i lastErr = (c', out) \<Longrightarrow>
   marked_down c' a"
proof (induction ns arbitrary: c i lastErr)
  case Nil
  then show ?case by (auto simp: marked_down_def)
next
  case (Cons node rest)
  obtain c1 res where s: "sendToServer dial post c (Address node) req = (c1, res)"
    by (cases "sendToServer dial post c (Address node) req") auto
  have d1: "marked_down c1 a" using marked_down_sendToServer [OF Cons.prems(1) s] .
  have d2: "marked_down (markConnectionUnhealthy c1 (Address node)) a"
    using d1 by (rule marked_down_mark_other)
  show ?case
  proof (cases res)
    case (Inl err)
    then show ?thesis using Cons.prems(2) s Cons.IH [OF d2] by simp
  next
    case (Inr resp)
    show ?thesis
    proof (cases "Success resp")
      case True
      then show ?thesis using Cons.prems(2) s Inr d1 by (auto simp: marked_down_def Let_def split: if_splits)
    next
      case False
      then show ?thesis using Cons.prems(2) s Inr Cons.IH [OF d2] by simp
    qed
  qed
qed

text \<open>
  C2, amended: within one \<^verbatim>\<open>SendMessage\<close>, every attempt that does not end the call
  with success, be it a transport-level error or a response with \<^verbatim>\<open>success=false\<close>,
  is followed by \<^verbatim>\<open>markConnectionUnhealthy\<close>: the connection of that address, if it
  exists, gets \<^verbatim>\<open>healthy = false\<close>, the loop goes on to the next successor (with
  \<^verbatim>\<open>lastErr\<close> set to the error, or to nil after a rejection), and the flag is still
  false when \<^verbatim>\<open>SendMessage\<close> returns.
\<close>

theorem failed_attempt_marks_connection_down:
  assumes "sendToServer dial post c (Address node) req = (c1, res)"
    and "attempt_failed res"
  shows "SendMessage_loop dial post c req (node # rest) i lastErr =
           SendMessage_loop dial post (markConnectionUnhealthy c1 (Address node)) req rest (i + 1)
             (case res of Inl err \<Rightarrow> Some err | Inr resp \<Rightarrow> None) \<and>
         marked_down (markConnectionUnhealthy c1 (Address node)) (Address node) \<and>
         (\<forall>sc. connections c1 (Address node) = Some sc \<longrightarrow>
            connections (markConnectionUnhealthy c1 (Address node)) (Address node) =
              Some (sc\<lparr>healthy := False\<rparr>)) \<and>
         marked_down (fst (SendMessage_loop dial post c req (node # rest) i lastErr)) (Address node)"
proof -
  have eq: "SendMessage_loop dial post c req (node # rest) i lastErr =
           SendMessage_loop dial post (markConnectionUnhealthy c1 (Address node)) req rest (i + 1)
             (case res of Inl err \<Rightarrow> Some err | Inr resp \<Rightarrow> None)"
    using assms by (cases res) (simp_all add: attempt_failed_def)
  have m: "marked_down (markConnectionUnhealthy c1 (Address node)) (Address node)"
    by (rule marked_down_mark_self)
  have u: "\<forall>sc. connections c1 (Address node) = Some sc \<longrightarrow>
            connections (markConnectionUnhealthy c1 (Address node)) (Address node) =
              Some (sc\<lparr>healthy := False\<rparr>)"
    by (simp add: markConnectionUnhealthy_def)
  have "marked_down (fst (SendMessage_loop dial post (markConnectionUnhealthy c1 (Address node)) req rest (i + 1)
             (case res of Inl err \<Rightarrow> Some err | Inr resp \<Rightarrow> None))) (Address node)"
    using marked_down_loop [OF m] by (metis prod.collapse)
  then show ?thesis using eq m u by simp
qed


lemmas client_eval = client_a_def AddServer_def NewSmartClient_def DefaultClientConfig_def
  AddNode_def NewHashRing_def connectToServer_def always_up_def rejecting_def Let_def
  virtualNodeKey_def length_hash_def

lemma client_a_connection:
  "connections client_a ''localhost:50051'' =
     Some \<lparr>address = ''localhost:50051'', conn = True, client = True, healthy = True\<rparr>"
  by (simp add: client_eval)

text \<open>
  C2, as stated: an attempt whose RPC succeeds at the transport level but whose
  response has \<^verbatim>\<open>success=false\<close> leaves the connection's \<^verbatim>\<open>healthy\<close> flag unchanged.
  A client with one healthy, connected server whose backend answers every request with
  \<^verbatim>\<open>Success == false\<close>: after one \<^verbatim>\<open>SendMessage\<close> the connection has
  \<^verbatim>\<open>healthy == false\<close>, and the call ends with "all servers exhausted" around a nil
  \<^verbatim>\<open>lastErr\<close>.
\<close>

theorem C2_counterexample:
  "connections client_a ''localhost:50051'' =
     Some \<lparr>address = ''localhost:50051'', conn = True, client = True, healthy = True\<rparr> \<and>
   map_sum id (\<lambda>(c', out). (connections c' ''localhost:50051'', out))
     (SendMessage length_hash 281474976710656 always_up rejecting 0 client_a
        ''chat-1'' ''user-1'' ''hello'') =
   Inr (Some \<lparr>address = ''localhost:50051'', conn = True, client = True, healthy = False\<rparr>,
        Inl (AllServersExhausted None))"
proof -
  have ns: "GetNodes length_hash 281474976710656 (ring client_a) ''chat-1'' 3 =
          Inr [\<lparr>NodeID_info = ''server-a'', Address = ''localhost:50051''\<rparr>]"
    by (simp add: client_eval GetNodes_def GetNodes_loop.simps startIndex_def Search_def addressOf_def
        makeslice_cap_ok_def NodeInfo_size_def)
  have mr: "MaxRetries (config client_a) = 3" by (simp add: client_eval)
  show ?thesis
    using client_a_connection
    by (simp add: SendMessage_def ns mr Let_def sendToServer_def markConnectionUnhealthy_def
        rejecting_def rejection_def)
qed

theorem failed_attempt_marks_connection_down_witness:
  "sendToServer always_up rejecting client_a ''localhost:50051''
      \<lparr>ChatId = ''chat-1'', MessageText = ''hello'', SenderId = ''user-1'', Timestamp_req = 0\<rparr> =
     (client_a, Inr rejection) \<and>
   attempt_failed (Inr rejection) \<and>
   \<not> marked_down client_a ''localhost:50051'' \<and>
   marked_down
     (fst (SendMessage_loop always_up rejecting client_a
        \<lparr>ChatId = ''chat-1'', MessageText = ''hello'', SenderId = ''user-1'', Timestamp_req = 0\<rparr>
        [\<lparr>NodeID_info = ''server-a'', Address = ''localhost:50051''\<rparr>] 0 None))
     ''localhost:50051''"
proof -
  let ?req = "\<lparr>ChatId = ''chat-1'', MessageText = ''hello'', SenderId = ''user-1'', Timestamp_req = 0\<rparr>"
  let ?node = "\<lparr>NodeID_info = ''server-a'', Address = ''localhost:50051''\<rparr>"
  have s: "sendToServer always_up rejecting client_a (Address ?node) ?req =
             (client_a, Inr rejection)"
    using client_a_connection by (simp add: sendToServer_def rejecting_def)
  have f: "attempt_failed (Inr rejection)"
    by (simp add: attempt_failed_def rejection_def)
  have u: "\<not> marked_down client_a ''localhost:50051''"
    using client_a_connection by (simp add: marked_down_def)
  from failed_attempt_marks_connection_down [OF s f, of "[]" 0 None]
  have "marked_down (fst (SendMessage_loop always_up rejecting client_a ?req [?node] 0 None))
          (Address ?node)" by blast
  then have d: "marked_down (fst (SendMessage_loop always_up rejecting client_a ?req [?node] 0 None))
          ''localhost:50051''" by (simp only: NodeInfo.select_convs)
  have s': "sendToServer always_up rejecting client_a ''localhost:50051'' ?req =
             (client_a, Inr rejection)" using s by (simp only: NodeInfo.select_convs)
  show ?thesis using s' f u d by blast
qed

end
